theory Spec2Isabelle
  imports Main
begin

section \<open>The compiler's parse tree\<close>

text \<open>
  The syntax kinds that \<^verbatim>\<open>Node.ts\<close> and the initializer mixin compare against
  (\<^verbatim>\<open>ts.SyntaxKind.SyntaxList\<close>, \<^verbatim>\<open>FirstAssignment\<close>, \<^verbatim>\<open>SemicolonToken\<close>,
  \<^verbatim>\<open>FirstPunctuation\<close>); every other kind is \<open>OtherKind\<close> with its number.
\<close>

datatype syntax_kind =
  SyntaxList | FirstAssignment | SemicolonToken | FirstPunctuation | OtherKind nat

text \<open>
  A \<^verbatim>\<open>ts.Node\<close>. Object identity is the field \<open>ident\<close>; \<open>tschildren\<close> is the child list
  that \<^verbatim>\<open>node.getChildren()\<close> gives for the tree as it was parsed. The fields that the
  wrapper writes or that point back into the tree (\<^verbatim>\<open>pos\<close>, \<^verbatim>\<open>end\<close>, \<^verbatim>\<open>parent\<close>,
  \<^verbatim>\<open>initializer\<close>) live in the session's stores, keyed by \<open>ident\<close>.

  The compiler builds the child list of a node at the first call of \<^verbatim>\<open>getChildren()\<close>, from
  the \<^verbatim>\<open>pos\<close> and \<^verbatim>\<open>end\<close> that the node has at that moment and the text between them, and
  keeps it in the node. The methods that never write \<^verbatim>\<open>pos\<close> or \<^verbatim>\<open>end\<close> find the list of
  the parse whenever they ask, so they read \<open>tschildren\<close>. \<^verbatim>\<open>offsetPositions\<close> writes both
  before it asks; its model takes the compiler's answer as an argument.
\<close>

datatype tsnode = TsNode (ident: nat) (kind: syntax_kind) (tschildren: "tsnode list")

fun idents :: "tsnode \<Rightarrow> nat list" where
  "idents (TsNode i k cs) = i # concat (map idents cs)"

fun subtrees :: "tsnode \<Rightarrow> tsnode list" where
  "subtrees (TsNode i k cs) = TsNode i k cs # concat (map subtrees cs)"

fun height :: "tsnode \<Rightarrow> nat" where
  "height (TsNode i k cs) = Suc (fold max (map height cs) 0)"

section \<open>Errors, session state and the wrapper cache\<close>

text \<open>
  The error classes of \<^verbatim>\<open>errors\<close> that the source constructs, each with its message.
  \<open>NotFoundError\<close> is the category of the specification's error taxonomy; no code under
  \<^verbatim>\<open>src/\<close> constructs it. \<open>CompilerFailure\<close> is an error thrown inside the compiler
  (a failed assertion of its \<^verbatim>\<open>Debug\<close> module); \<^verbatim>\<open>Node.ts\<close> does not catch it, so it
  reaches the caller of the method.
\<close>

datatype error =
  InvalidOperationError string
  | NotImplementedError string
  | NotFoundError string
  | CompilerFailure string

text \<open>
  The state of one session. Handles (\<^verbatim>\<open>Node\<close> objects) and compiler nodes are
  identified by numbers.
  \<^item> \<open>slot h\<close> is \<^verbatim>\<open>_compilerNode\<close> of handle \<open>h\<close> (\<open>None\<close> is \<^verbatim>\<open>undefined\<close>);
  \<^item> \<open>sourceFile h\<close> is the handle's \<^verbatim>\<open>sourceFile\<close> field;
  \<^item> \<open>nodeCache\<close> is the compiler factory's cache from node identity to handle and
    \<open>nextHandle\<close> the next unused handle identity;
  \<^item> \<open>tspos\<close>, \<open>tsend\<close>, \<open>tsparent\<close>, \<open>tsinitializer\<close> are the fields of the compiler
    nodes, \<open>tstext\<close> the \<^verbatim>\<open>text\<close> of a source-file node;
  \<^item> \<open>skipTrivia\<close> is the compiler's function from a text and a \<^verbatim>\<open>pos\<close> to the start
    without leading trivia, as \<^verbatim>\<open>node.getStart(sourceFile)\<close> computes it.
\<close>

record session =
  slot :: "nat \<Rightarrow> tsnode option"
  sourceFile :: "nat \<Rightarrow> nat"
  nodeCache :: "nat \<Rightarrow> nat option"
  nextHandle :: nat
  tspos :: "nat \<Rightarrow> int"
  tsend :: "nat \<Rightarrow> int"
  tsparent :: "nat \<Rightarrow> tsnode option"
  tsinitializer :: "nat \<Rightarrow> tsnode option"
  tstext :: "nat \<Rightarrow> string"
  skipTrivia :: "string \<Rightarrow> int \<Rightarrow> int"

text \<open>
  A method of a handle: it runs in a session, returns a value or throws, and leaves a
  session behind in both cases (what was written before a throw stays written).
\<close>

type_synonym 'a action = "session \<Rightarrow> (error + 'a) \<times> session"

definition ret :: "'a \<Rightarrow> 'a action" where
  "ret x s = (Inr x, s)"

definition throw :: "error \<Rightarrow> 'a action" where
  "throw e s = (Inl e, s)"

definition gets :: "(session \<Rightarrow> 'a) \<Rightarrow> 'a action" where
  "gets f s = (Inr (f s), s)"

definition bnd :: "'a action \<Rightarrow> ('a \<Rightarrow> 'b action) \<Rightarrow> 'b action" where
  "bnd m f s = (case m s of (Inl e, s') \<Rightarrow> (Inl e, s') | (Inr x, s') \<Rightarrow> f x s')"

fun mapA :: "('a \<Rightarrow> 'b action) \<Rightarrow> 'a list \<Rightarrow> 'b list action" where
  "mapA f [] = ret []"
| "mapA f (x # xs) = bnd (f x) (\<lambda>y. bnd (mapA f xs) (\<lambda>ys. ret (y # ys)))"

definition removedMsg :: string where
  "removedMsg = ''Attempted to get information from a node that was removed from the AST.''"

text \<open>The getter \<^verbatim>\<open>compilerNode\<close> (Node.ts, lines 26 to 30).\<close>

definition compilerNode :: "nat \<Rightarrow> tsnode action" where
  "compilerNode h s =
     (case slot s h of
        None \<Rightarrow> (Inl (InvalidOperationError removedMsg), s)
      | Some n \<Rightarrow> (Inr n, s))"

text \<open>
  Modelled from the spec: \<^verbatim>\<open>CompilerFactory.getNodeFromCompilerNode\<close> is not under
  \<^verbatim>\<open>src/\<close>. The specification's \<^verbatim>\<open>getOrCreate(rawNode, ownerFile)\<close> returns the
  existing handle if the identity is cached, else constructs and registers a new one
  (the constructor of \<^verbatim>\<open>Node\<close>, lines 39 to 47, sets the node and the source file).
\<close>

definition getNodeFromCompilerNode :: "tsnode \<Rightarrow> nat \<Rightarrow> nat action" where
  "getNodeFromCompilerNode n sf s =
     (case nodeCache s (ident n) of
        Some h \<Rightarrow> (Inr h, s)
      | None \<Rightarrow>
          (Inr (nextHandle s),
           s\<lparr>slot := (slot s)(nextHandle s := Some n),
             sourceFile := (sourceFile s)(nextHandle s := sf),
             nodeCache := (nodeCache s)(ident n := Some (nextHandle s)),
             nextHandle := Suc (nextHandle s)\<rparr>))"

text \<open>
  Modelled from the spec: \<^verbatim>\<open>CompilerFactory.removeNodeFromCache\<close> is not under
  \<^verbatim>\<open>src/\<close>. The specification's \<^verbatim>\<open>remove(handle)\<close> deletes the cache entry of the
  handle and is idempotent.
\<close>

definition removeNodeFromCache :: "nat \<Rightarrow> session \<Rightarrow> session" where
  "removeNodeFromCache h s =
     s\<lparr>nodeCache := (\<lambda>k. if nodeCache s k = Some h then None else nodeCache s k)\<rparr>"

text \<open>\<^verbatim>\<open>getNodeFromCompilerNode(n, this.sourceFile)\<close> as a method of handle \<open>h\<close>.\<close>

definition wrap :: "nat \<Rightarrow> tsnode \<Rightarrow> nat action" where
  "wrap h n s = getNodeFromCompilerNode n (sourceFile s h) s"

section \<open>Accessors of a handle\<close>

definition getKind :: "nat \<Rightarrow> syntax_kind action" where
  "getKind h = bnd (compilerNode h) (\<lambda>n. ret (kind n))"

definition getPos :: "nat \<Rightarrow> int action" where
  "getPos h = bnd (compilerNode h) (\<lambda>n. gets (\<lambda>s. tspos s (ident n)))"

definition getEnd :: "nat \<Rightarrow> int action" where
  "getEnd h = bnd (compilerNode h) (\<lambda>n. gets (\<lambda>s. tsend s (ident n)))"

text \<open>\<^verbatim>\<open>getStart\<close>: \<^verbatim>\<open>this.compilerNode.getStart(this.sourceFile.compilerNode)\<close>.\<close>

definition getStart :: "nat \<Rightarrow> int action" where
  "getStart h =
     bnd (compilerNode h) (\<lambda>n.
     bnd (\<lambda>s. compilerNode (sourceFile s h) s) (\<lambda>f.
     gets (\<lambda>s. skipTrivia s (tstext s (ident f)) (tspos s (ident n)))))"

text \<open>
  \<^verbatim>\<open>String.prototype.substring\<close> on a text, as the compiler's \<^verbatim>\<open>getText\<close> and
  \<^verbatim>\<open>getFullText\<close> use it: both ends are clamped to the text and swapped when out of
  order.
\<close>

definition substring :: "string \<Rightarrow> int \<Rightarrow> int \<Rightarrow> string" where
  "substring t a b =
     (let a' = min (max a 0) (int (length t));
          b' = min (max b 0) (int (length t))
      in take (nat (max a' b' - min a' b')) (drop (nat (min a' b')) t))"

definition getText :: "nat \<Rightarrow> string action" where
  "getText h =
     bnd (compilerNode h) (\<lambda>n.
     bnd (\<lambda>s. compilerNode (sourceFile s h) s) (\<lambda>f.
     gets (\<lambda>s. substring (tstext s (ident f))
                  (skipTrivia s (tstext s (ident f)) (tspos s (ident n)))
                  (tsend s (ident n)))))"

definition getFullText :: "nat \<Rightarrow> string action" where
  "getFullText h =
     bnd (compilerNode h) (\<lambda>n.
     bnd (\<lambda>s. compilerNode (sourceFile s h) s) (\<lambda>f.
     gets (\<lambda>s. substring (tstext s (ident f)) (tspos s (ident n)) (tsend s (ident n)))))"

definition containsRange :: "nat \<Rightarrow> int \<Rightarrow> int \<Rightarrow> bool action" where
  "containsRange h p e =
     bnd (getPos h) (\<lambda>a. if a \<le> p then bnd (getEnd h) (\<lambda>b. ret (e \<le> b)) else ret False)"

text \<open>\<^verbatim>\<open>getChildren\<close> (lines 291 to 293): every child is wrapped at once.\<close>

definition getChildren :: "nat \<Rightarrow> nat list action" where
  "getChildren h = bnd (compilerNode h) (\<lambda>n. mapA (wrap h) (tschildren n))"

text \<open>
  \<^verbatim>\<open>getChildrenIterator\<close> (lines 298 to 302) is a generator: its first step reads the
  compiler children, and each child is wrapped only when the consumer asks for it.
  \<open>iterChildren\<close> is the first step; the consumers below wrap with \<open>wrap\<close> as they go.
\<close>

definition iterChildren :: "nat \<Rightarrow> tsnode list action" where
  "iterChildren h =
     bnd (compilerNode h) (\<lambda>n.
     bnd (\<lambda>s. compilerNode (sourceFile s h) s) (\<lambda>f. ret (tschildren n)))"

definition getChildCount :: "nat \<Rightarrow> nat action" where
  "getChildCount h =
     bnd (compilerNode h) (\<lambda>n.
     bnd (\<lambda>s. compilerNode (sourceFile s h) s) (\<lambda>f. ret (length (tschildren n))))"

text \<open>\<^verbatim>\<open>getParent\<close> and \<^verbatim>\<open>getParentOrThrow\<close> (lines 508 to 520).\<close>

definition getParent :: "nat \<Rightarrow> nat option action" where
  "getParent h =
     bnd (compilerNode h) (\<lambda>n.
     bnd (gets (\<lambda>s. tsparent s (ident n))) (\<lambda>p.
       case p of
         None \<Rightarrow> ret None
       | Some pn \<Rightarrow> bnd (wrap h pn) (\<lambda>ph. ret (Some ph))))"

definition getParentOrThrow :: "nat \<Rightarrow> nat action" where
  "getParentOrThrow h =
     bnd (getParent h) (\<lambda>p.
       case p of
         None \<Rightarrow> throw (InvalidOperationError ''A parent is required to do this operation.'')
       | Some ph \<Rightarrow> ret ph)"

section \<open>Finding children\<close>

text \<open>
  The optional \<^verbatim>\<open>condition\<close> of the query methods: a callback that may read the
  session and may throw. \<^verbatim>\<open>condition == null || condition(child)\<close> is \<open>holds\<close>.
\<close>

definition holds :: "(nat \<Rightarrow> bool action) option \<Rightarrow> nat \<Rightarrow> bool action" where
  "holds c x = (case c of None \<Rightarrow> ret True | Some f \<Rightarrow> f x)"

text \<open>
  The loop \<^verbatim>\<open>for (const child of this.getChildrenIterator()) if (...) return child\<close>:
  the children are wrapped one at a time, up to the first that satisfies the condition.
\<close>

fun firstWrapped :: "nat \<Rightarrow> (nat \<Rightarrow> bool action) option \<Rightarrow> tsnode list \<Rightarrow> nat option action" where
  "firstWrapped h c [] = ret None"
| "firstWrapped h c (x # xs) =
     bnd (wrap h x) (\<lambda>y. bnd (holds c y) (\<lambda>b. if b then ret (Some y) else firstWrapped h c xs))"

text \<open>The same loop over handles that are already wrapped.\<close>

fun firstOf :: "(nat \<Rightarrow> bool action) option \<Rightarrow> nat list \<Rightarrow> nat option action" where
  "firstOf c [] = ret None"
| "firstOf c (x # xs) = bnd (holds c x) (\<lambda>b. if b then ret (Some x) else firstOf c xs)"

definition getFirstChild :: "(nat \<Rightarrow> bool action) option \<Rightarrow> nat \<Rightarrow> nat option action" where
  "getFirstChild c h = bnd (iterChildren h) (firstWrapped h c)"

definition getFirstChildOrThrow :: "(nat \<Rightarrow> bool action) option \<Rightarrow> nat \<Rightarrow> nat action" where
  "getFirstChildOrThrow c h =
     bnd (getFirstChild c h) (\<lambda>r.
       case r of
         None \<Rightarrow> throw (InvalidOperationError
                   ''Could not find a child that matched the specified condition.'')
       | Some x \<Rightarrow> ret x)"

definition getLastChild :: "(nat \<Rightarrow> bool action) option \<Rightarrow> nat \<Rightarrow> nat option action" where
  "getLastChild c h = bnd (getChildren h) (\<lambda>cs. firstOf c (rev cs))"

definition getLastChildOrThrow :: "(nat \<Rightarrow> bool action) option \<Rightarrow> nat \<Rightarrow> nat action" where
  "getLastChildOrThrow c h =
     bnd (getLastChild c h) (\<lambda>r.
       case r of
         None \<Rightarrow> throw (InvalidOperationError
                   ''Could not find a child that matched the specified condition.'')
       | Some x \<Rightarrow> ret x)"

definition getLastChildIfKind :: "syntax_kind \<Rightarrow> nat \<Rightarrow> nat option action" where
  "getLastChildIfKind k h =
     bnd (getLastChild None h) (\<lambda>l.
       case l of
         None \<Rightarrow> ret None
       | Some c \<Rightarrow> bnd (getKind c) (\<lambda>k'. ret (if k' = k then Some c else None)))"

text \<open>\<^verbatim>\<open>getChildAtPos\<close> (lines 370 to 380).\<close>

definition inRange :: "int \<Rightarrow> nat \<Rightarrow> bool action" where
  "inRange p c =
     bnd (getPos c) (\<lambda>a. if p \<ge> a then bnd (getEnd c) (\<lambda>b. ret (p < b)) else ret False)"

definition getChildAtPos :: "nat \<Rightarrow> int \<Rightarrow> nat option action" where
  "getChildAtPos h p =
     bnd (getPos h) (\<lambda>a.
       if p < a then ret None
       else bnd (getEnd h) (\<lambda>b.
         if p \<ge> b then ret None
         else bnd (iterChildren h) (firstWrapped h (Some (inRange p)))))"

section \<open>Methods that recurse through handles\<close>

text \<open>
  A method that calls itself on the handles of its children reads each child's node from
  the session, so its recursion is bounded by fuel: \<open>None\<close> is a run that did not finish
  within the fuel.
\<close>

type_synonym 'a run = "session \<Rightarrow> ((error + 'a) \<times> session) option"

definition lift :: "'a action \<Rightarrow> 'a run" where
  "lift m s = Some (m s)"

definition bndF :: "'a run \<Rightarrow> ('a \<Rightarrow> 'b run) \<Rightarrow> 'b run" where
  "bndF m f s =
     (case m s of
        None \<Rightarrow> None
      | Some (Inl e, s') \<Rightarrow> Some (Inl e, s')
      | Some (Inr x, s') \<Rightarrow> f x s')"

fun forEachF :: "('a \<Rightarrow> unit run) \<Rightarrow> 'a list \<Rightarrow> unit run" where
  "forEachF f [] = lift (ret ())"
| "forEachF f (x # xs) = bndF (f x) (\<lambda>u. forEachF f xs)"

definition clearSlot :: "nat \<Rightarrow> session \<Rightarrow> session" where
  "clearSlot h s = s\<lparr>slot := (slot s)(h := None)\<rparr>"

definition modify :: "(session \<Rightarrow> session) \<Rightarrow> unit action" where
  "modify f s = (Inr (), f s)"

text \<open>\<^verbatim>\<open>dispose\<close> (lines 53 to 60).\<close>

primrec dispose :: "nat \<Rightarrow> nat \<Rightarrow> unit run" where
  "dispose 0 = (\<lambda>h s. None)"
| "dispose (Suc f) = (\<lambda>h.
     bndF (lift (getChildren h)) (\<lambda>cs.
     bndF (forEachF (dispose f) cs) (\<lambda>u.
     bndF (lift (modify (removeNodeFromCache h))) (\<lambda>u.
     lift (modify (clearSlot h))))))"

text \<open>
  \<^verbatim>\<open>offsetPositions\<close> (lines 190 to 197). The method adds the offset to \<^verbatim>\<open>pos\<close> and
  \<^verbatim>\<open>end\<close> of its node and only then calls \<^verbatim>\<open>this.getChildren()\<close>, which is
  \<^verbatim>\<open>this.compilerNode.getChildren()\<close> with every node wrapped (line 292). The compiler
  (the package \<^verbatim>\<open>typescript\<close> 2.5.2 of \<^verbatim>\<open>package.json\<close>) is not part of the repository:
  it answers with the list kept in the node when it has built one, and otherwise builds
  the list from the \<^verbatim>\<open>pos\<close> and \<^verbatim>\<open>end\<close> that the node has now. Its answer is the argument
  \<open>nodeChildren\<close>: from the session at the call and the node to the list, or to the error
  that the compiler throws.
\<close>

definition addPos :: "nat \<Rightarrow> int \<Rightarrow> unit action" where
  "addPos h k =
     bnd (compilerNode h) (\<lambda>n.
       modify (\<lambda>s. s\<lparr>tspos := (tspos s)(ident n := tspos s (ident n) + k)\<rparr>))"

definition addEnd :: "nat \<Rightarrow> int \<Rightarrow> unit action" where
  "addEnd h k =
     bnd (compilerNode h) (\<lambda>n.
       modify (\<lambda>s. s\<lparr>tsend := (tsend s)(ident n := tsend s (ident n) + k)\<rparr>))"

definition getChildrenNow :: "(session \<Rightarrow> tsnode \<Rightarrow> error + tsnode list) \<Rightarrow> nat \<Rightarrow> nat list action" where
  "getChildrenNow nodeChildren h =
     bnd (compilerNode h) (\<lambda>n.
     bnd (\<lambda>s. (nodeChildren s n, s)) (mapA (wrap h)))"

primrec offsetPositions ::
  "(session \<Rightarrow> tsnode \<Rightarrow> error + tsnode list) \<Rightarrow> nat \<Rightarrow> int \<Rightarrow> nat \<Rightarrow> unit run" where
  "offsetPositions nodeChildren 0 = (\<lambda>k h s. None)"
| "offsetPositions nodeChildren (Suc f) = (\<lambda>k h.
     bndF (lift (addPos h k)) (\<lambda>u.
     bndF (lift (addEnd h k)) (\<lambda>u.
     bndF (lift (getChildrenNow nodeChildren h)) (forEachF (offsetPositions nodeChildren f k)))))"

text \<open>
  \<^verbatim>\<open>getDescendants\<close> and \<^verbatim>\<open>getDescendantsIterator\<close> (lines 342 to 357): each child is
  yielded, then the array of its descendants.
\<close>

fun collectDescendants :: "(nat \<Rightarrow> nat list run) \<Rightarrow> nat \<Rightarrow> tsnode list \<Rightarrow> nat list run" where
  "collectDescendants g h [] = lift (ret [])"
| "collectDescendants g h (c # cs) =
     bndF (lift (wrap h c)) (\<lambda>ch.
     bndF (g ch) (\<lambda>ds.
     bndF (collectDescendants g h cs) (\<lambda>rest. lift (ret (ch # ds @ rest)))))"

primrec getDescendants :: "nat \<Rightarrow> nat \<Rightarrow> nat list run" where
  "getDescendants 0 = (\<lambda>h s. None)"
| "getDescendants (Suc f) = (\<lambda>h.
     bndF (lift (iterChildren h)) (collectDescendants (getDescendants f) h))"

text \<open>
  \<^verbatim>\<open>getFirstDescendant\<close> (lines 177 to 183) consumes the iterator up to the first
  descendant that satisfies the condition.
\<close>

fun firstDescendant ::
  "(nat \<Rightarrow> nat list run) \<Rightarrow> nat \<Rightarrow> (nat \<Rightarrow> bool action) option \<Rightarrow> tsnode list \<Rightarrow> nat option run" where
  "firstDescendant g h c [] = lift (ret None)"
| "firstDescendant g h c (x # xs) =
     bndF (lift (wrap h x)) (\<lambda>ch.
     bndF (lift (holds c ch)) (\<lambda>b.
       if b then lift (ret (Some ch))
       else bndF (g ch) (\<lambda>ds.
            bndF (lift (firstOf c ds)) (\<lambda>r.
              case r of
                Some d \<Rightarrow> lift (ret (Some d))
              | None \<Rightarrow> firstDescendant g h c xs))))"

definition getFirstDescendant :: "nat \<Rightarrow> (nat \<Rightarrow> bool action) option \<Rightarrow> nat \<Rightarrow> nat option run" where
  "getFirstDescendant f c h =
     bndF (lift (iterChildren h)) (firstDescendant (getDescendants f) h c)"

definition getFirstDescendantOrThrow :: "nat \<Rightarrow> (nat \<Rightarrow> bool action) option \<Rightarrow> nat \<Rightarrow> nat run" where
  "getFirstDescendantOrThrow f c h =
     bndF (getFirstDescendant f c h) (\<lambda>r.
       case r of
         None \<Rightarrow> lift (throw (InvalidOperationError
                   ''Could not find a descendant that matched the specified condition.''))
       | Some x \<Rightarrow> lift (ret x))"

text \<open>
  \<^verbatim>\<open>getDescendantAtPos\<close> (lines 386 to 396): the loop \<^verbatim>\<open>while (true)\<close> with its
  variable \<^verbatim>\<open>node\<close>, one unit of fuel for each turn.
\<close>

primrec narrow :: "nat \<Rightarrow> nat option \<Rightarrow> nat \<Rightarrow> int \<Rightarrow> nat option run" where
  "narrow 0 = (\<lambda>node h p s. None)"
| "narrow (Suc f) = (\<lambda>node h p.
     bndF (lift (getChildAtPos (case node of None \<Rightarrow> h | Some x \<Rightarrow> x) p)) (\<lambda>nextNode.
       case nextNode of
         None \<Rightarrow> lift (ret node)
       | Some y \<Rightarrow> narrow f (Some y) h p))"

definition getDescendantAtPos :: "nat \<Rightarrow> nat \<Rightarrow> int \<Rightarrow> nat option run" where
  "getDescendantAtPos f h p = narrow f None h p"

section \<open>Siblings and the parent syntax list\<close>

text \<open>\<^verbatim>\<open>getParentSyntaxList\<close> (lines 554 to 570).\<close>

definition coversAsList :: "int \<Rightarrow> int \<Rightarrow> nat \<Rightarrow> bool action" where
  "coversAsList p e c =
     bnd (getKind c) (\<lambda>k.
       if k = SyntaxList then
         bnd (getPos c) (\<lambda>a.
           if a \<le> p then bnd (getEnd c) (\<lambda>b. ret (b \<ge> e)) else ret False)
       else ret False)"

fun scanForList :: "nat \<Rightarrow> int \<Rightarrow> int \<Rightarrow> nat list \<Rightarrow> nat option action" where
  "scanForList h p e [] = ret None"
| "scanForList h p e (c # cs) =
     bnd (getPos c) (\<lambda>a.
       if a > p \<or> c = h then ret None
       else bnd (coversAsList p e c) (\<lambda>b.
         if b then ret (Some c) else scanForList h p e cs))"

definition getParentSyntaxList :: "nat \<Rightarrow> nat option action" where
  "getParentSyntaxList h =
     bnd (getParent h) (\<lambda>parent.
       case parent of
         None \<Rightarrow> ret None
       | Some ph \<Rightarrow>
           bnd (getPos h) (\<lambda>p.
           bnd (getEnd h) (\<lambda>e.
           bnd (getChildren ph) (scanForList h p e))))"

definition getParentSyntaxListOrThrow :: "nat \<Rightarrow> nat action" where
  "getParentSyntaxListOrThrow h =
     bnd (getParentSyntaxList h) (\<lambda>r.
       case r of
         None \<Rightarrow> throw (InvalidOperationError ''Expected the parent to be a syntax list.'')
       | Some x \<Rightarrow> ret x)"

text \<open>\<^verbatim>\<open>this.getParentSyntaxList() || this.getParentOrThrow()\<close>.\<close>

definition siblingParent :: "nat \<Rightarrow> nat action" where
  "siblingParent h =
     bnd (getParentSyntaxList h) (\<lambda>l.
       case l of
         Some x \<Rightarrow> ret x
       | None \<Rightarrow> getParentOrThrow h)"

text \<open>
  \<^verbatim>\<open>getPreviousSiblings\<close> (lines 252 to 264): the loop stops at the node itself and
  puts each child in front of the ones before it.
\<close>

fun previousLoop :: "nat \<Rightarrow> nat \<Rightarrow> nat list \<Rightarrow> tsnode list \<Rightarrow> nat list action" where
  "previousLoop ph h acc [] = ret acc"
| "previousLoop ph h acc (c # cs) =
     bnd (wrap ph c) (\<lambda>child.
       if child = h then ret acc else previousLoop ph h (child # acc) cs)"

definition getPreviousSiblings :: "nat \<Rightarrow> nat list action" where
  "getPreviousSiblings h =
     bnd (siblingParent h) (\<lambda>ph. bnd (iterChildren ph) (previousLoop ph h []))"

text \<open>\<^verbatim>\<open>getNextSiblings\<close> (lines 271 to 286), with its flag \<^verbatim>\<open>foundChild\<close>.\<close>

fun nextLoop :: "nat \<Rightarrow> nat \<Rightarrow> bool \<Rightarrow> nat list \<Rightarrow> tsnode list \<Rightarrow> nat list action" where
  "nextLoop ph h foundChild acc [] = ret acc"
| "nextLoop ph h foundChild acc (c # cs) =
     bnd (wrap ph c) (\<lambda>child.
       if \<not> foundChild then nextLoop ph h (child = h) acc cs
       else nextLoop ph h foundChild (acc @ [child]) cs)"

definition getNextSiblings :: "nat \<Rightarrow> nat list action" where
  "getNextSiblings h =
     bnd (siblingParent h) (\<lambda>ph. bnd (iterChildren ph) (nextLoop ph h False []))"

definition getPreviousSibling :: "(nat \<Rightarrow> bool action) option \<Rightarrow> nat \<Rightarrow> nat option action" where
  "getPreviousSibling c h = bnd (getPreviousSiblings h) (firstOf c)"

definition getPreviousSiblingOrThrow :: "(nat \<Rightarrow> bool action) option \<Rightarrow> nat \<Rightarrow> nat action" where
  "getPreviousSiblingOrThrow c h =
     bnd (getPreviousSibling c h) (\<lambda>r.
       case r of
         None \<Rightarrow> throw (InvalidOperationError ''Could not find the previous sibling.'')
       | Some x \<Rightarrow> ret x)"

definition getNextSibling :: "(nat \<Rightarrow> bool action) option \<Rightarrow> nat \<Rightarrow> nat option action" where
  "getNextSibling c h = bnd (getNextSiblings h) (firstOf c)"

definition getNextSiblingOrThrow :: "(nat \<Rightarrow> bool action) option \<Rightarrow> nat \<Rightarrow> nat action" where
  "getNextSiblingOrThrow c h =
     bnd (getNextSibling c h) (\<lambda>r.
       case r of
         None \<Rightarrow> throw (InvalidOperationError ''Could not find the next sibling.'')
       | Some x \<Rightarrow> ret x)"

text \<open>\<^verbatim>\<open>getChildIndex\<close> (lines 575 to 586).\<close>

fun indexLoop :: "nat \<Rightarrow> nat \<Rightarrow> nat list \<Rightarrow> nat action" where
  "indexLoop h i [] =
     throw (NotImplementedError
       ''For some reason the child's parent did not contain the child.'')"
| "indexLoop h i (c # cs) = (if c = h then ret i else indexLoop h (Suc i) cs)"

definition getChildIndex :: "nat \<Rightarrow> nat action" where
  "getChildIndex h =
     bnd (siblingParent h) (\<lambda>ph. bnd (getChildren ph) (indexLoop h 0))"

section \<open>Position of a node on its line\<close>

text \<open>
  Modelled from the spec: the class \<^verbatim>\<open>SourceFile\<close> is not under \<^verbatim>\<open>src/\<close>. The source
  file handle owns the current full text buffer; \<^verbatim>\<open>getFullText\<close> of the source file
  reads it through the handle's node.
\<close>

definition sourceFileFullText :: "nat \<Rightarrow> string action" where
  "sourceFileFullText f = bnd (compilerNode f) (\<lambda>n. gets (\<lambda>s. tstext s (ident n)))"

text \<open>\<^verbatim>\<open>sourceFileText[i]\<close>: outside the text it is \<^verbatim>\<open>undefined\<close>.\<close>

definition charAt :: "string \<Rightarrow> nat \<Rightarrow> char option" where
  "charAt t i = (if i < length t then Some (t ! i) else None)"

text \<open>
  The loop of \<^verbatim>\<open>isFirstNodeOnLine\<close> (lines 647 to 657),
  \<^verbatim>\<open>for (let i = startPos - 1; i >= 0; i--)\<close>; the argument is \<open>i + 1\<close>.
\<close>

fun scanToLineStart :: "string \<Rightarrow> nat \<Rightarrow> bool" where
  "scanToLineStart t 0 = False"
| "scanToLineStart t (Suc i) =
     (if charAt t i = Some (CHR '' '') \<or> charAt t i = Some (CHR 0x09) then scanToLineStart t i
      else if charAt t i = Some (CHR 0x0A) then True
      else False)"

definition isFirstNodeOnLine :: "nat \<Rightarrow> bool action" where
  "isFirstNodeOnLine h =
     bnd (\<lambda>s. sourceFileFullText (sourceFile s h) s) (\<lambda>sourceFileText.
     bnd (getStart h) (\<lambda>startPos.
     ret (scanToLineStart sourceFileText (nat startPos))))"

section \<open>Initializers\<close>

text \<open>
  The options of \<^verbatim>\<open>removeChildren\<close> and \<^verbatim>\<open>insertIntoParent\<close> as the initializer mixin
  passes them. Both functions belong to \<^verbatim>\<open>manipulation\<close>, which is not under
  \<^verbatim>\<open>src/\<close>: the methods below take them as arguments.
\<close>

record remove_options =
  children :: "nat list"
  removePrecedingSpaces :: bool

record insert_options =
  insertPos :: int
  childIndex :: nat
  insertItemsCount :: nat
  parent :: nat
  newText :: string

definition hasInitializer :: "nat \<Rightarrow> bool action" where
  "hasInitializer h = bnd (compilerNode h) (\<lambda>n. gets (\<lambda>s. tsinitializer s (ident n) \<noteq> None))"

definition getInitializer :: "nat \<Rightarrow> nat option action" where
  "getInitializer h =
     bnd (compilerNode h) (\<lambda>n.
     bnd (gets (\<lambda>s. tsinitializer s (ident n))) (\<lambda>i.
       case i of
         None \<Rightarrow> ret None
       | Some x \<Rightarrow> bnd (wrap h x) (\<lambda>y. ret (Some y))))"

text \<open>
  \<^verbatim>\<open>removeInitializer\<close> (lines 975 to 990). The error of
  \<^verbatim>\<open>errors.getNotImplementedForSyntaxKindError(kind)\<close> is a \<open>NotImplementedError\<close>; its
  message is not under \<^verbatim>\<open>src/\<close> and is left empty.
\<close>

definition notImplementedForSyntaxKind :: "nat \<Rightarrow> 'a action" where
  "notImplementedForSyntaxKind h = bnd (getKind h) (\<lambda>k. throw (NotImplementedError []))"

definition removeInitializer :: "(remove_options \<Rightarrow> unit action) \<Rightarrow> nat \<Rightarrow> nat action" where
  "removeInitializer removeChildren h =
     bnd (getInitializer h) (\<lambda>initializer.
       case initializer of
         None \<Rightarrow> ret h
       | Some init \<Rightarrow>
           bnd (getPreviousSibling None init) (\<lambda>previousSibling.
             case previousSibling of
               None \<Rightarrow> notImplementedForSyntaxKind h
             | Some prev \<Rightarrow>
                 bnd (getKind prev) (\<lambda>k.
                   if k \<noteq> FirstAssignment then notImplementedForSyntaxKind h
                   else bnd (removeChildren
                              \<lparr>children = [prev, init], removePrecedingSpaces = True\<rparr>)
                          (\<lambda>u. ret h))))"

text \<open>
  Modelled from the spec: \<^verbatim>\<open>errors.throwIfNotStringOrWhitespace\<close> is not under
  \<^verbatim>\<open>src/\<close>. By the specification, setting a blank-only text value is an
  InvalidOperation; the message is the argument name the caller passes.
\<close>

definition isWhitespace :: "char \<Rightarrow> bool" where
  "isWhitespace c = (c \<in> set [CHR '' '', CHR 0x09, CHR 0x0A, CHR 0x0B, CHR 0x0C, CHR 0x0D])"

definition throwIfNotStringOrWhitespace :: "string \<Rightarrow> string \<Rightarrow> unit action" where
  "throwIfNotStringOrWhitespace v argName =
     (if list_all isWhitespace v then throw (InvalidOperationError argName) else ret ())"

text \<open>\<^verbatim>\<open>setInitializer\<close> (lines 992 to 1008).\<close>

definition setInitializer ::
  "(remove_options \<Rightarrow> unit action) \<Rightarrow> (insert_options \<Rightarrow> unit action) \<Rightarrow> string \<Rightarrow> nat \<Rightarrow> nat action" where
  "setInitializer removeChildren insertIntoParent txt h =
     bnd (throwIfNotStringOrWhitespace txt ''text'') (\<lambda>u.
     bnd (hasInitializer h) (\<lambda>has.
     bnd (if has then removeInitializer removeChildren h else ret h) (\<lambda>u.
     bnd (getLastChildIfKind SemicolonToken h) (\<lambda>semiColonToken.
     bnd (case semiColonToken of Some t \<Rightarrow> getPos t | None \<Rightarrow> getEnd h) (\<lambda>ip.
     bnd (case semiColonToken of Some t \<Rightarrow> getChildIndex t | None \<Rightarrow> getChildCount h) (\<lambda>ci.
     bnd (insertIntoParent
            \<lparr>insertPos = ip, childIndex = ci, insertItemsCount = 2, parent = h,
             newText = '' = '' @ txt\<rparr>) (\<lambda>u.
     ret h)))))))"

text \<open>
  The statements of \<^verbatim>\<open>setInitializer\<close> that follow the removal (lines 998 to 1007), as a
  method of their own: the lemma \<open>setInitializer_split\<close> below shows that
  \<^verbatim>\<open>setInitializer\<close> is the check, the removal and then these statements.
\<close>

definition insertInitializer :: "(insert_options \<Rightarrow> unit action) \<Rightarrow> string \<Rightarrow> nat \<Rightarrow> nat action" where
  "insertInitializer insertIntoParent txt h =
     bnd (getLastChildIfKind SemicolonToken h) (\<lambda>semiColonToken.
     bnd (case semiColonToken of Some t \<Rightarrow> getPos t | None \<Rightarrow> getEnd h) (\<lambda>ip.
     bnd (case semiColonToken of Some t \<Rightarrow> getChildIndex t | None \<Rightarrow> getChildCount h) (\<lambda>ci.
     bnd (insertIntoParent
            \<lparr>insertPos = ip, childIndex = ci, insertItemsCount = 2, parent = h,
             newText = '' = '' @ txt\<rparr>) (\<lambda>u.
     ret h))))"

section \<open>Queries by syntax kind\<close>

text \<open>
  The queries of \<^verbatim>\<open>Node.ts\<close> (lines 664 to 848) that compare the kind, with their
  \<^verbatim>\<open>OrThrow\<close> forms. The messages hold \<^verbatim>\<open>ts.SyntaxKind[kind]\<close>, the compiler's table
  from a kind to its name: the argument \<open>nm\<close>.
\<close>

definition kindIs :: "syntax_kind \<Rightarrow> nat \<Rightarrow> bool action" where
  "kindIs k c = bnd (getKind c) (\<lambda>k'. ret (k' = k))"

definition getFirstChildByKind :: "syntax_kind \<Rightarrow> nat \<Rightarrow> nat option action" where
  "getFirstChildByKind k h = getFirstChild (Some (kindIs k)) h"

definition getFirstChildByKindOrThrow ::
  "(syntax_kind \<Rightarrow> string) \<Rightarrow> syntax_kind \<Rightarrow> nat \<Rightarrow> nat action" where
  "getFirstChildByKindOrThrow nm k h =
     bnd (getFirstChildByKind k h) (\<lambda>r.
       case r of
         None \<Rightarrow> throw (InvalidOperationError
                   (''A child of the kind '' @ nm k @ '' was expected.''))
       | Some x \<Rightarrow> ret x)"

definition getFirstChildIfKind :: "syntax_kind \<Rightarrow> nat \<Rightarrow> nat option action" where
  "getFirstChildIfKind k h =
     bnd (getFirstChild None h) (\<lambda>l.
       case l of
         None \<Rightarrow> ret None
       | Some c \<Rightarrow> bnd (getKind c) (\<lambda>k'. ret (if k' = k then Some c else None)))"

definition getFirstChildIfKindOrThrow ::
  "(syntax_kind \<Rightarrow> string) \<Rightarrow> syntax_kind \<Rightarrow> nat \<Rightarrow> nat action" where
  "getFirstChildIfKindOrThrow nm k h =
     bnd (getFirstChildIfKind k h) (\<lambda>r.
       case r of
         None \<Rightarrow> throw (InvalidOperationError
                   (''A first child of the kind '' @ nm k @ '' was expected.''))
       | Some x \<Rightarrow> ret x)"

definition getLastChildByKind :: "syntax_kind \<Rightarrow> nat \<Rightarrow> nat option action" where
  "getLastChildByKind k h = getLastChild (Some (kindIs k)) h"

definition getLastChildByKindOrThrow ::
  "(syntax_kind \<Rightarrow> string) \<Rightarrow> syntax_kind \<Rightarrow> nat \<Rightarrow> nat action" where
  "getLastChildByKindOrThrow nm k h =
     bnd (getLastChildByKind k h) (\<lambda>r.
       case r of
         None \<Rightarrow> throw (InvalidOperationError
                   (''A child of the kind '' @ nm k @ '' was expected.''))
       | Some x \<Rightarrow> ret x)"

definition getLastChildIfKindOrThrow ::
  "(syntax_kind \<Rightarrow> string) \<Rightarrow> syntax_kind \<Rightarrow> nat \<Rightarrow> nat action" where
  "getLastChildIfKindOrThrow nm k h =
     bnd (getLastChildIfKind k h) (\<lambda>r.
       case r of
         None \<Rightarrow> throw (InvalidOperationError
                   (''A last child of the kind '' @ nm k @ '' was expected.''))
       | Some x \<Rightarrow> ret x)"

definition getPreviousSiblingIfKind :: "syntax_kind \<Rightarrow> nat \<Rightarrow> nat option action" where
  "getPreviousSiblingIfKind k h =
     bnd (getPreviousSibling None h) (\<lambda>l.
       case l of
         None \<Rightarrow> ret None
       | Some c \<Rightarrow> bnd (getKind c) (\<lambda>k'. ret (if k' = k then Some c else None)))"

definition getPreviousSiblingIfKindOrThrow ::
  "(syntax_kind \<Rightarrow> string) \<Rightarrow> syntax_kind \<Rightarrow> nat \<Rightarrow> nat action" where
  "getPreviousSiblingIfKindOrThrow nm k h =
     bnd (getPreviousSiblingIfKind k h) (\<lambda>r.
       case r of
         None \<Rightarrow> throw (InvalidOperationError
                   (''A previous sibling of kind '' @ nm k @ '' was expected.''))
       | Some x \<Rightarrow> ret x)"

definition getNextSiblingIfKind :: "syntax_kind \<Rightarrow> nat \<Rightarrow> nat option action" where
  "getNextSiblingIfKind k h =
     bnd (getNextSibling None h) (\<lambda>l.
       case l of
         None \<Rightarrow> ret None
       | Some c \<Rightarrow> bnd (getKind c) (\<lambda>k'. ret (if k' = k then Some c else None)))"

definition getNextSiblingIfKindOrThrow ::
  "(syntax_kind \<Rightarrow> string) \<Rightarrow> syntax_kind \<Rightarrow> nat \<Rightarrow> nat action" where
  "getNextSiblingIfKindOrThrow nm k h =
     bnd (getNextSiblingIfKind k h) (\<lambda>r.
       case r of
         None \<Rightarrow> throw (InvalidOperationError
                   (''A next sibling of kind '' @ nm k @ '' was expected.''))
       | Some x \<Rightarrow> ret x)"

definition getParentIfKind :: "syntax_kind \<Rightarrow> nat \<Rightarrow> nat option action" where
  "getParentIfKind k h =
     bnd (getParent h) (\<lambda>l.
       case l of
         None \<Rightarrow> ret None
       | Some c \<Rightarrow> bnd (getKind c) (\<lambda>k'. ret (if k' \<noteq> k then None else Some c)))"

definition getParentIfKindOrThrow ::
  "(syntax_kind \<Rightarrow> string) \<Rightarrow> syntax_kind \<Rightarrow> nat \<Rightarrow> nat action" where
  "getParentIfKindOrThrow nm k h =
     bnd (getParentIfKind k h) (\<lambda>r.
       case r of
         None \<Rightarrow> throw (InvalidOperationError
                   (''A parent with a syntax kind of '' @ nm k
                    @ '' is required to do this operation.''))
       | Some x \<Rightarrow> ret x)"

text \<open>
  \<^verbatim>\<open>getParents\<close> (lines 490 to 503) walks up through the handles of the parents, one
  unit of fuel for each.
\<close>

primrec parentsFrom :: "nat \<Rightarrow> nat option \<Rightarrow> nat list run" where
  "parentsFrom 0 = (\<lambda>p s. None)"
| "parentsFrom (Suc f) = (\<lambda>p.
     case p of
       None \<Rightarrow> lift (ret [])
     | Some x \<Rightarrow>
         bndF (lift (getParent x)) (\<lambda>nx.
         bndF (parentsFrom f nx) (\<lambda>rest. lift (ret (x # rest)))))"

definition getParents :: "nat \<Rightarrow> nat \<Rightarrow> nat list run" where
  "getParents f h = bndF (lift (getParent h)) (parentsFrom f)"

definition getFirstParentByKind :: "nat \<Rightarrow> syntax_kind \<Rightarrow> nat \<Rightarrow> nat option run" where
  "getFirstParentByKind f k h =
     bndF (getParents f h) (\<lambda>ps. lift (firstOf (Some (kindIs k)) ps))"

definition getFirstParentByKindOrThrow ::
  "nat \<Rightarrow> (syntax_kind \<Rightarrow> string) \<Rightarrow> syntax_kind \<Rightarrow> nat \<Rightarrow> nat run" where
  "getFirstParentByKindOrThrow f nm k h =
     bndF (getFirstParentByKind f k h) (\<lambda>r.
       case r of
         None \<Rightarrow> lift (throw (InvalidOperationError
                   (''A parent of kind '' @ nm k @ '' is required to do this operation.'')))
       | Some x \<Rightarrow> lift (ret x))"

definition getFirstDescendantByKind :: "nat \<Rightarrow> syntax_kind \<Rightarrow> nat \<Rightarrow> nat option run" where
  "getFirstDescendantByKind f k h =
     bndF (lift (iterChildren h)) (firstDescendant (getDescendants f) h (Some (kindIs k)))"

definition getFirstDescendantByKindOrThrow ::
  "nat \<Rightarrow> (syntax_kind \<Rightarrow> string) \<Rightarrow> syntax_kind \<Rightarrow> nat \<Rightarrow> nat run" where
  "getFirstDescendantByKindOrThrow f nm k h =
     bndF (getFirstDescendantByKind f k h) (\<lambda>r.
       case r of
         None \<Rightarrow> lift (throw (InvalidOperationError
                   (''A descendant of kind '' @ nm k @ '' is required to do this operation.'')))
       | Some x \<Rightarrow> lift (ret x))"

text \<open>
  \<^verbatim>\<open>getChildSyntaxListOrThrow\<close> (lines 307 to 312). Its counterpart
  \<^verbatim>\<open>getChildSyntaxList\<close> calls \<^verbatim>\<open>TypeGuards\<close> and the body accessors of other classes,
  which are not under \<^verbatim>\<open>src/\<close>: it is the argument \<open>getChildSyntaxList\<close>.
\<close>

definition getChildSyntaxListOrThrow :: "(nat \<Rightarrow> nat option action) \<Rightarrow> nat \<Rightarrow> nat action" where
  "getChildSyntaxListOrThrow getChildSyntaxList h =
     bnd (getChildSyntaxList h) (\<lambda>r.
       case r of
         None \<Rightarrow> throw (InvalidOperationError ''A child syntax list was expected.'')
       | Some x \<Rightarrow> ret x)"

text \<open>Whether an error belongs to the category NotFound of the specification.\<close>

definition isNotFound :: "error \<Rightarrow> bool" where
  "isNotFound e = (case e of NotFoundError m \<Rightarrow> True | _ \<Rightarrow> False)"

section \<open>Well-formed sessions\<close>

text \<open>
  The state in which a session is between two calls, for the parse tree \<open>root\<close> of a
  source file: the nodes of the tree have distinct identities, and a handle that the
  cache holds for a node of the tree was created before \<open>nextHandle\<close> and wraps that
  node. \<open>fileOk\<close> adds that the handles of the tree's nodes have the live handle \<open>sf\<close> as
  their source file.
\<close>

definition cacheOk :: "tsnode \<Rightarrow> session \<Rightarrow> bool" where
  "cacheOk root s \<longleftrightarrow>
     distinct (idents root) \<and>
     list_all (\<lambda>n. case nodeCache s (ident n) of
                      None \<Rightarrow> True
                    | Some h \<Rightarrow> h < nextHandle s \<and> slot s h = Some n) (subtrees root)"

definition fileOk :: "tsnode \<Rightarrow> nat \<Rightarrow> session \<Rightarrow> bool" where
  "fileOk root sf s \<longleftrightarrow>
     sf < nextHandle s \<and> slot s sf \<noteq> None \<and>
     list_all (\<lambda>n. case nodeCache s (ident n) of
                      None \<Rightarrow> True
                    | Some h \<Rightarrow> sourceFile s h = sf) (subtrees root)"

definition sessionOk :: "tsnode \<Rightarrow> nat \<Rightarrow> session \<Rightarrow> bool" where
  "sessionOk root sf s \<longleftrightarrow> cacheOk root s \<and> fileOk root sf s"

text \<open>
  The ranges of a parse tree: the children of a node lie inside the node, one after the
  other.
\<close>

fun rangesOk :: "session \<Rightarrow> tsnode \<Rightarrow> bool" where
  "rangesOk s (TsNode i k cs) \<longleftrightarrow>
     list_all (\<lambda>c. tspos s i \<le> tspos s (ident c) \<and> tsend s (ident c) \<le> tsend s i \<and>
                    rangesOk s c) cs \<and>
     sorted_wrt (\<lambda>a b. tsend s (ident a) \<le> tspos s (ident b)) cs"

section \<open>The node at a position, on the parse tree\<close>

text \<open>
  The specification of the position queries in terms of nodes: \<open>inside\<close> is the
  half-open range test, \<open>childAt\<close> the direct child at an offset, and \<open>descendFrom\<close> the
  node that repeated narrowing through \<open>childAt\<close> ends in (\<open>None\<close> when no direct child
  contains the offset).
\<close>

definition inside :: "session \<Rightarrow> int \<Rightarrow> tsnode \<Rightarrow> bool" where
  "inside s p c \<longleftrightarrow> tspos s (ident c) \<le> p \<and> p < tsend s (ident c)"

definition childAt :: "session \<Rightarrow> int \<Rightarrow> tsnode \<Rightarrow> tsnode option" where
  "childAt s p n = (if inside s p n then find (inside s p) (tschildren n) else None)"

fun descendFrom :: "session \<Rightarrow> int \<Rightarrow> tsnode \<Rightarrow> tsnode option"
  and firstIn :: "session \<Rightarrow> int \<Rightarrow> tsnode list \<Rightarrow> tsnode option" where
  "descendFrom s p (TsNode i k cs) =
     (if inside s p (TsNode i k cs) then firstIn s p cs else None)"
| "firstIn s p [] = None"
| "firstIn s p (c # cs) =
     (if inside s p c then
        (case descendFrom s p c of None \<Rightarrow> Some c | Some m \<Rightarrow> Some m)
      else firstIn s p cs)"

section \<open>The sibling group, on the parse tree\<close>

text \<open>
  The scan of \<^verbatim>\<open>getParentSyntaxList\<close> in terms of nodes, for a node \<open>n\<close> and a child \<open>c\<close>
  of its parent: \<open>stopsScan\<close> holds when the scan gives up at \<open>c\<close> (it starts after the
  node or is the node itself), \<open>coversList\<close> when \<open>c\<close> is a syntax list whose range covers
  the node. \<open>parentList\<close> is the first child at which one of the two holds, when it is
  not one that stops the scan; \<open>siblingGroup\<close> is the children of that list, or of the
  parent when there is none.
\<close>

definition stopsScan :: "session \<Rightarrow> tsnode \<Rightarrow> tsnode \<Rightarrow> bool" where
  "stopsScan s n c \<longleftrightarrow> tspos s (ident c) > tspos s (ident n) \<or> ident c = ident n"

definition coversList :: "session \<Rightarrow> tsnode \<Rightarrow> tsnode \<Rightarrow> bool" where
  "coversList s n c \<longleftrightarrow>
     kind c = SyntaxList \<and> tspos s (ident c) \<le> tspos s (ident n) \<and>
     tsend s (ident c) \<ge> tsend s (ident n)"

definition parentList :: "session \<Rightarrow> tsnode \<Rightarrow> tsnode \<Rightarrow> tsnode option" where
  "parentList s n pn =
     (case find (\<lambda>c. stopsScan s n c \<or> coversList s n c) (tschildren pn) of
        None \<Rightarrow> None
      | Some c \<Rightarrow> if stopsScan s n c then None else Some c)"

definition siblingGroup :: "session \<Rightarrow> tsnode \<Rightarrow> tsnode \<Rightarrow> tsnode list" where
  "siblingGroup s n pn = tschildren (case parentList s n pn of Some l \<Rightarrow> l | None \<Rightarrow> pn)"

text \<open>
  What wrapping nodes does to a session: handles are added after \<open>nextHandle\<close>, the
  entries of the cache and the handles that exist stay as they are (\<open>handlesKept\<close>), and
  the fields of the compiler nodes are not written (\<open>sameNodes\<close>).
\<close>

definition handlesKept :: "session \<Rightarrow> session \<Rightarrow> bool" where
  "handlesKept s s' \<longleftrightarrow>
     nextHandle s \<le> nextHandle s' \<and>
     (\<forall>k h. nodeCache s k = Some h \<longrightarrow> nodeCache s' k = Some h) \<and>
     (\<forall>h < nextHandle s. slot s' h = slot s h \<and> sourceFile s' h = sourceFile s h)"

definition sameNodes :: "session \<Rightarrow> session \<Rightarrow> bool" where
  "sameNodes s s' \<longleftrightarrow>
     tspos s' = tspos s \<and> tsend s' = tsend s \<and> tsparent s' = tsparent s \<and>
     tsinitializer s' = tsinitializer s \<and> tstext s' = tstext s \<and> skipTrivia s' = skipTrivia s"

text \<open>
  What disposing does to a session, for a set \<open>K\<close> of node identities: the nodes of the
  tree in \<open>K\<close> have no entry in the cache any more and the handles they had are cleared;
  the entries of the other nodes of the tree stay; a handle that existed keeps its node
  or is cleared.
\<close>

definition released :: "tsnode \<Rightarrow> nat set \<Rightarrow> session \<Rightarrow> session \<Rightarrow> bool" where
  "released r K s s' \<longleftrightarrow>
     cacheOk r s' \<and> nextHandle s \<le> nextHandle s' \<and>
     (\<forall>m \<in> set (subtrees r). ident m \<in> K \<longrightarrow>
        nodeCache s' (ident m) = None \<and>
        (\<forall>h. nodeCache s (ident m) = Some h \<longrightarrow> slot s' h = None)) \<and>
     (\<forall>m \<in> set (subtrees r). ident m \<notin> K \<longrightarrow> nodeCache s' (ident m) = nodeCache s (ident m)) \<and>
     (\<forall>h < nextHandle s. slot s' h = slot s h \<or> slot s' h = None)"

text \<open>
  What offsetting does to a session, for a set \<open>K\<close> of node identities and a delta \<open>k\<close>:
  \<^verbatim>\<open>pos\<close> and \<^verbatim>\<open>end\<close> of the nodes in \<open>K\<close> grow by \<open>k\<close>, those of the other nodes and all
  other fields stay, and the handles are kept.
\<close>

definition shifted :: "tsnode \<Rightarrow> nat set \<Rightarrow> int \<Rightarrow> session \<Rightarrow> session \<Rightarrow> bool" where
  "shifted r K k s s' \<longleftrightarrow>
     cacheOk r s' \<and> handlesKept s s' \<and>
     (\<forall>i. tspos s' i = (if i \<in> K then tspos s i + k else tspos s i)) \<and>
     (\<forall>i. tsend s' i = (if i \<in> K then tsend s i + k else tsend s i)) \<and>
     tsparent s' = tsparent s \<and> tsinitializer s' = tsinitializer s \<and>
     tstext s' = tstext s \<and> skipTrivia s' = skipTrivia s"

section \<open>An example session\<close>

text \<open>
  The file \<^verbatim>\<open>class C {\n  x = 1;\n}\<close> as the compiler parses it, with the children that
  \<^verbatim>\<open>getChildren()\<close> gives: the source file (node 0) holds a syntax list (1) and the end
  of file token (13); the list holds the class declaration (2) with the keyword (3), the
  name (4), the open brace (5), the member list (6) and the close brace (12); the member
  list holds the property declaration (7) with its name (8), the equals token (9), the
  initializer (10) and the semicolon (11). In \<open>exSession\<close> the source file, the property,
  the class, the initializer and the member list are wrapped by the handles 0, 1, 2, 4
  and 5; the handle 3 was disposed. The \<^verbatim>\<open>parent\<close> of a node is the node that owns it
  in the compiler's tree: a syntax list is never a \<^verbatim>\<open>parent\<close>, so the parent of the
  property is the class and the parent of the class is the source file.
\<close>

definition exText :: string where
  "exText = ''class C {\<newline>  x = 1;\<newline>}''"

definition exInit :: tsnode where "exInit = TsNode 10 (OtherKind 8) []"
definition exProp :: tsnode where
  "exProp = TsNode 7 (OtherKind 149)
     [TsNode 8 (OtherKind 71) [], TsNode 9 FirstAssignment [], exInit, TsNode 11 SemicolonToken []]"
definition exMembers :: tsnode where "exMembers = TsNode 6 SyntaxList [exProp]"
definition exClass :: tsnode where
  "exClass = TsNode 2 (OtherKind 229)
     [TsNode 3 (OtherKind 75) [], TsNode 4 (OtherKind 71) [], TsNode 5 FirstPunctuation [],
      exMembers, TsNode 12 (OtherKind 18) []]"
definition exStatements :: tsnode where "exStatements = TsNode 1 SyntaxList [exClass]"
definition exFile :: tsnode where
  "exFile = TsNode 0 (OtherKind 265) [exStatements, TsNode 13 (OtherKind 1) []]"

definition exSkip :: "string \<Rightarrow> int \<Rightarrow> int" where
  "exSkip t p = p + int (length (takeWhile isWhitespace (drop (nat p) t)))"

definition exSession :: session where
  "exSession =
     \<lparr>slot = (\<lambda>h. None)(0 := Some exFile, 1 := Some exProp, 2 := Some exClass,
               4 := Some exInit, 5 := Some exMembers),
      sourceFile = (\<lambda>h. 0),
      nodeCache = (\<lambda>k. None)(0 := Some 0, 7 := Some 1, 2 := Some 2, 10 := Some 4,
                    6 := Some 5),
      nextHandle = 6,
      tspos = (\<lambda>k. 0)(4 := 5, 5 := 7, 6 := 9, 7 := 9, 8 := 9, 9 := 13, 10 := 15, 11 := 17,
                12 := 18, 13 := 20),
      tsend = (\<lambda>k. 20)(3 := 5, 4 := 7, 5 := 9, 6 := 18, 7 := 18, 8 := 13, 9 := 15, 10 := 17,
                11 := 18),
      tsparent = (\<lambda>k. None)(1 := Some exFile, 13 := Some exFile, 2 := Some exFile,
                3 := Some exClass, 4 := Some exClass, 5 := Some exClass, 6 := Some exClass,
                12 := Some exClass, 7 := Some exClass, 8 := Some exProp, 9 := Some exProp,
                10 := Some exProp, 11 := Some exProp),
      tsinitializer = (\<lambda>k. None)(7 := Some exInit),
      tstext = (\<lambda>k. exText),
      skipTrivia = exSkip\<rparr>"

text \<open>
  The session after the initializer of the example was removed: the text is
  \<^verbatim>\<open>class C {\n  x;\n}\<close>, the file was parsed again (nodes 20 to 33, named as the nodes 0
  to 13 of the first parse), the handles 0, 1, 2 and 5 wrap the new source file, property,
  class and member list, and the handles of the initializer (4) and of the equals token
  (6) are disposed. \<open>exRemoveChildren\<close> is a \<^verbatim>\<open>removeChildren\<close> for the example: called
  with the handles of the equals token and of the initializer, in this order, and with
  \<^verbatim>\<open>removePrecedingSpaces\<close> set, it leaves that session, and it fails on every other call.
  \<open>exInsertIntoParent\<close> is an \<^verbatim>\<open>insertIntoParent\<close> that accepts one call only: the text
  \<^verbatim>\<open> = 2\<close> at offset 13 and child index 1 of handle 1, with two inserted items.
\<close>

definition exText2 :: string where
  "exText2 = ''class C {\<newline>  x;\<newline>}''"

definition exProp2 :: tsnode where
  "exProp2 = TsNode 27 (OtherKind 149) [TsNode 28 (OtherKind 71) [], TsNode 31 SemicolonToken []]"
definition exMembers2 :: tsnode where "exMembers2 = TsNode 26 SyntaxList [exProp2]"
definition exClass2 :: tsnode where
  "exClass2 = TsNode 22 (OtherKind 229)
     [TsNode 23 (OtherKind 75) [], TsNode 24 (OtherKind 71) [], TsNode 25 FirstPunctuation [],
      exMembers2, TsNode 32 (OtherKind 18) []]"
definition exStatements2 :: tsnode where "exStatements2 = TsNode 21 SyntaxList [exClass2]"
definition exFile2 :: tsnode where
  "exFile2 = TsNode 20 (OtherKind 265) [exStatements2, TsNode 33 (OtherKind 1) []]"

definition exRemoved :: session where
  "exRemoved =
     \<lparr>slot = (\<lambda>h. None)(0 := Some exFile2, 1 := Some exProp2, 2 := Some exClass2,
               5 := Some exMembers2),
      sourceFile = (\<lambda>h. 0),
      nodeCache = (\<lambda>k. None)(20 := Some 0, 27 := Some 1, 22 := Some 2, 26 := Some 5),
      nextHandle = 7,
      tspos = (\<lambda>k. 0)(24 := 5, 25 := 7, 26 := 9, 27 := 9, 28 := 9, 31 := 13, 32 := 14,
                33 := 16),
      tsend = (\<lambda>k. 16)(23 := 5, 24 := 7, 25 := 9, 26 := 14, 27 := 14, 28 := 13, 31 := 14),
      tsparent = (\<lambda>k. None)(21 := Some exFile2, 33 := Some exFile2, 22 := Some exFile2,
                23 := Some exClass2, 24 := Some exClass2, 25 := Some exClass2,
                26 := Some exClass2, 32 := Some exClass2, 27 := Some exClass2,
                28 := Some exProp2, 31 := Some exProp2),
      tsinitializer = (\<lambda>k. None),
      tstext = (\<lambda>k. exText2),
      skipTrivia = exSkip\<rparr>"

definition exRemoveChildren :: "remove_options \<Rightarrow> unit action" where
  "exRemoveChildren opts s =
     (if removePrecedingSpaces opts \<and>
         map (slot s) (children opts) = [Some (TsNode 9 FirstAssignment []), Some exInit]
      then (Inr (), exRemoved)
      else (Inl (NotImplementedError []), s))"

definition exInsertIntoParent :: "insert_options \<Rightarrow> unit action" where
  "exInsertIntoParent opts s =
     (if opts = \<lparr>insertPos = 13, childIndex = 1, insertItemsCount = 2, parent = 1,
                  newText = '' = 2''\<rparr>
      then (Inr (), s)
      else (Inl (NotImplementedError []), s))"

text \<open>
  An answer of the compiler for the example, in which the child list of the property
  declaration (node 7) has not been built and every other list has. For the property the
  compiler scans the text from the \<^verbatim>\<open>pos\<close> to the \<^verbatim>\<open>end\<close> that the node has at the call;
  its scanner meets the end of the file when that \<^verbatim>\<open>end\<close> lies beyond the text, and the
  assertion that guards the scan fails. With the range of the parse the list is the one of
  the parse. (The lists that the compiler builds for other ranges are not needed below
  and are not modelled.)
\<close>

definition exNodeChildren :: "session \<Rightarrow> tsnode \<Rightarrow> error + tsnode list" where
  "exNodeChildren s n =
     (if ident n = 7 \<and> int (length (tstext s 0)) < tsend s 7
      then Inl (CompilerFailure ''Debug Failure'')
      else Inr (tschildren n))"

section \<open>First node on a line\<close>

lemma scanToLineStart_iff:
  "scanToLineStart t m \<longleftrightarrow>
     (\<exists>j<m. charAt t j = Some (CHR 0x0A) \<and>
        (\<forall>k. j < k \<and> k < m \<longrightarrow> charAt t k = Some (CHR '' '') \<or> charAt t k = Some (CHR 0x09)))"
proof (induction m)
  case 0
  show ?case by simp
next
  case (Suc m)
  show ?case
  proof (cases "charAt t m = Some (CHR '' '') \<or> charAt t m = Some (CHR 0x09)")
    case True
    have "(\<exists>j<Suc m. charAt t j = Some (CHR 0x0A) \<and>
        (\<forall>k. j < k \<and> k < Suc m \<longrightarrow> charAt t k = Some (CHR '' '') \<or> charAt t k = Some (CHR 0x09)))
      \<longleftrightarrow> (\<exists>j<m. charAt t j = Some (CHR 0x0A) \<and>
        (\<forall>k. j < k \<and> k < m \<longrightarrow> charAt t k = Some (CHR '' '') \<or> charAt t k = Some (CHR 0x09)))"
      (is "?L \<longleftrightarrow> ?R")
    proof
      assume ?L
      then obtain j where j: "j < Suc m" "charAt t j = Some (CHR 0x0A)"
        "\<forall>k. j < k \<and> k < Suc m \<longrightarrow> charAt t k = Some (CHR '' '') \<or> charAt t k = Some (CHR 0x09)"
        by blast
      from True j(2) have "j \<noteq> m" by auto
      with j(1) have "j < m" by simp
      moreover have "\<forall>k. j < k \<and> k < m \<longrightarrow> charAt t k = Some (CHR '' '') \<or> charAt t k = Some (CHR 0x09)"
        using j(3) by (simp add: less_Suc_eq)
      ultimately show ?R using j(2) by blast
    next
      assume ?R
      then obtain j where j: "j < m" "charAt t j = Some (CHR 0x0A)"
        "\<forall>k. j < k \<and> k < m \<longrightarrow> charAt t k = Some (CHR '' '') \<or> charAt t k = Some (CHR 0x09)"
        by blast
      have "\<forall>k. j < k \<and> k < Suc m \<longrightarrow> charAt t k = Some (CHR '' '') \<or> charAt t k = Some (CHR 0x09)"
        using j(3) True by (auto simp: less_Suc_eq)
      moreover have "j < Suc m" using j(1) by simp
      ultimately show ?L using j(2) by blast
    qed
    with True Suc show ?thesis by simp
  next
    case False
    show ?thesis
    proof (cases "charAt t m = Some (CHR 0x0A)")
      case True
      then show ?thesis by (auto intro!: exI[of _ m])
    next
      case nl: False
      have "\<not> (\<exists>j<Suc m. charAt t j = Some (CHR 0x0A) \<and>
        (\<forall>k. j < k \<and> k < Suc m \<longrightarrow> charAt t k = Some (CHR '' '') \<or> charAt t k = Some (CHR 0x09)))"
      proof
        assume "\<exists>j<Suc m. charAt t j = Some (CHR 0x0A) \<and>
        (\<forall>k. j < k \<and> k < Suc m \<longrightarrow> charAt t k = Some (CHR '' '') \<or> charAt t k = Some (CHR 0x09))"
        then obtain j where j: "j < Suc m" "charAt t j = Some (CHR 0x0A)"
          "\<forall>k. j < k \<and> k < Suc m \<longrightarrow> charAt t k = Some (CHR '' '') \<or> charAt t k = Some (CHR 0x09)"
          by blast
        from nl j(2) have "j \<noteq> m" by auto
        with j(1) have "j < m" by simp
        with j(3) False show False by auto
      qed
      with False nl show ?thesis by simp
    qed
  qed
qed

lemma scan_blank: "(\<forall>k<m. charAt t k = Some (CHR '' '') \<or> charAt t k = Some (CHR 0x09)) \<Longrightarrow> \<not> scanToLineStart t m"
  by (induction m) auto

lemmas act = ret_def throw_def gets_def bnd_def compilerNode_def

text \<open>
  C10: \<^verbatim>\<open>isFirstNodeOnLine()\<close> on a live handle returns true exactly when the scan
  backward from the start without trivia passes only spaces and tabs and then meets a
  newline. It returns false when the start is position 0 and when only spaces and tabs
  stand between the beginning of the file and the start.
\<close>

theorem isFirstNodeOnLine_newline_only:
  assumes "slot s h = Some n" and "slot s (sourceFile s h) = Some f"
  shows "isFirstNodeOnLine h s =
     (Inr (\<exists>j < nat (skipTrivia s (tstext s (ident f)) (tspos s (ident n))).
             charAt (tstext s (ident f)) j = Some (CHR 0x0A) \<and>
             (\<forall>k. j < k \<and> k < nat (skipTrivia s (tstext s (ident f)) (tspos s (ident n))) \<longrightarrow>
                  charAt (tstext s (ident f)) k = Some (CHR '' '') \<or>
                  charAt (tstext s (ident f)) k = Some (CHR 0x09))), s)
   \<and> (skipTrivia s (tstext s (ident f)) (tspos s (ident n)) \<le> 0 \<longrightarrow>
        isFirstNodeOnLine h s = (Inr False, s))
   \<and> ((\<forall>k < nat (skipTrivia s (tstext s (ident f)) (tspos s (ident n))).
          charAt (tstext s (ident f)) k = Some (CHR '' '') \<or>
          charAt (tstext s (ident f)) k = Some (CHR 0x09)) \<longrightarrow>
        isFirstNodeOnLine h s = (Inr False, s))"
proof -
  have run: "isFirstNodeOnLine h s =
      (Inr (scanToLineStart (tstext s (ident f))
              (nat (skipTrivia s (tstext s (ident f)) (tspos s (ident n))))), s)"
    using assms by (simp add: isFirstNodeOnLine_def sourceFileFullText_def getStart_def act)
  show ?thesis
    unfolding run using scanToLineStart_iff scan_blank by auto
qed

theorem isFirstNodeOnLine_newline_only_witness:
  "isFirstNodeOnLine 1 exSession = (Inr True, exSession) \<and>
   isFirstNodeOnLine 2 exSession = (Inr False, exSession)"
proof -
  have a: "slot exSession 1 = Some exProp" "slot exSession 2 = Some exClass"
     "slot exSession (sourceFile exSession 1) = Some exFile"
     "slot exSession (sourceFile exSession 2) = Some exFile"
    by (simp_all add: exSession_def)
  have p: "skipTrivia exSession exText (tspos exSession (ident exProp)) = 12"
    by (simp add: exSession_def exProp_def exSkip_def exText_def isWhitespace_def)
  have c: "skipTrivia exSession exText (tspos exSession (ident exClass)) = 0"
    by (simp add: exSession_def exClass_def exSkip_def exText_def isWhitespace_def)
  have t: "tstext exSession (ident exFile) = exText" by (simp add: exSession_def)
  have nl: "charAt exText 9 = Some (CHR 0x0A)" "charAt exText 10 = Some (CHR '' '')"
      "charAt exText 11 = Some (CHR '' '')"
    by (simp_all add: charAt_def exText_def)
  have ex: "\<exists>j<12. charAt exText j = Some (CHR 0x0A) \<and>
      (\<forall>k. j < k \<and> k < 12 \<longrightarrow> charAt exText k = Some (CHR '' '') \<or> charAt exText k = Some (CHR 0x09))"
  proof (intro exI[of _ 9] conjI allI impI)
    fix k :: nat assume "9 < k \<and> k < 12"
    then have "k = 10 \<or> k = 11" by arith
    then show "charAt exText k = Some (CHR '' '') \<or> charAt exText k = Some (CHR 0x09)"
      using nl by auto
  qed (simp_all add: nl)
  show ?thesis
    using isFirstNodeOnLine_newline_only[OF a(1) a(3)] isFirstNodeOnLine_newline_only[OF a(2) a(4)]
      ex
    by (simp add: p c t)
qed

section \<open>Disposed and live handles\<close>

lemma compilerNode_disposed:
  "slot s h = None \<Longrightarrow> compilerNode h s = (Inl (InvalidOperationError removedMsg), s)"
  by (simp add: compilerNode_def)

lemma compilerNode_live: "slot s h = Some n \<Longrightarrow> compilerNode h s = (Inr n, s)"
  by (simp add: compilerNode_def)

lemma mapA_wrap_returns: "\<exists>r s'. mapA (wrap h) cs s = (Inr r, s')"
proof (induction cs arbitrary: s)
  case Nil
  show ?case by (simp add: ret_def)
next
  case (Cons c cs)
  obtain y s1 where w: "wrap h c s = (Inr y, s1)"
    by (cases "nodeCache s (ident c)") (auto simp: wrap_def getNodeFromCompilerNode_def)
  from Cons[of s1] obtain r s2 where m: "mapA (wrap h) cs s1 = (Inr r, s2)" by blast
  show ?case using w m by (simp add: bnd_def ret_def)
qed

lemma wrap_returns: "\<exists>y s'. wrap h c s = (Inr y, s')"
  by (cases "nodeCache s (ident c)") (auto simp: wrap_def getNodeFromCompilerNode_def)

text \<open>
  C2: every method of a disposed handle (its slot is empty) that reads the underlying node
  throws the \<^verbatim>\<open>InvalidOperationError\<close> of the getter \<^verbatim>\<open>compilerNode\<close> and leaves the
  session as it was, also the recursive methods on any positive fuel. On a live handle
  the accessors return the data of the node; the ones that also read the node of the
  source file handle do so when that handle is live.
\<close>

theorem disposed_handle_fails_fast:
  "(slot s h = None \<longrightarrow>
      getKind h s = (Inl (InvalidOperationError removedMsg), s) \<and>
      getPos h s = (Inl (InvalidOperationError removedMsg), s) \<and>
      getEnd h s = (Inl (InvalidOperationError removedMsg), s) \<and>
      getStart h s = (Inl (InvalidOperationError removedMsg), s) \<and>
      getText h s = (Inl (InvalidOperationError removedMsg), s) \<and>
      getFullText h s = (Inl (InvalidOperationError removedMsg), s) \<and>
      containsRange h p e s = (Inl (InvalidOperationError removedMsg), s) \<and>
      getChildren h s = (Inl (InvalidOperationError removedMsg), s) \<and>
      getChildCount h s = (Inl (InvalidOperationError removedMsg), s) \<and>
      getParent h s = (Inl (InvalidOperationError removedMsg), s) \<and>
      getParentOrThrow h s = (Inl (InvalidOperationError removedMsg), s) \<and>
      getFirstChild c h s = (Inl (InvalidOperationError removedMsg), s) \<and>
      getFirstChildOrThrow c h s = (Inl (InvalidOperationError removedMsg), s) \<and>
      getLastChild c h s = (Inl (InvalidOperationError removedMsg), s) \<and>
      getLastChildOrThrow c h s = (Inl (InvalidOperationError removedMsg), s) \<and>
      getChildAtPos h p s = (Inl (InvalidOperationError removedMsg), s) \<and>
      getParentSyntaxList h s = (Inl (InvalidOperationError removedMsg), s) \<and>
      getPreviousSiblings h s = (Inl (InvalidOperationError removedMsg), s) \<and>
      getNextSiblings h s = (Inl (InvalidOperationError removedMsg), s) \<and>
      getChildIndex h s = (Inl (InvalidOperationError removedMsg), s) \<and>
      isFirstNodeOnLine h s = (Inl (InvalidOperationError removedMsg), s) \<and>
      hasInitializer h s = (Inl (InvalidOperationError removedMsg), s) \<and>
      getInitializer h s = (Inl (InvalidOperationError removedMsg), s) \<and>
      removeInitializer rc h s = (Inl (InvalidOperationError removedMsg), s) \<and>
      (\<not> list_all isWhitespace txt \<longrightarrow>
         setInitializer rc ip txt h s = (Inl (InvalidOperationError removedMsg), s)) \<and>
      getDescendants (Suc fuel) h s = Some (Inl (InvalidOperationError removedMsg), s) \<and>
      getFirstDescendant fuel c h s = Some (Inl (InvalidOperationError removedMsg), s) \<and>
      getDescendantAtPos (Suc fuel) h p s = Some (Inl (InvalidOperationError removedMsg), s) \<and>
      offsetPositions nodeChildren (Suc fuel) k h s =
        Some (Inl (InvalidOperationError removedMsg), s) \<and>
      dispose (Suc fuel) h s = Some (Inl (InvalidOperationError removedMsg), s))
   \<and> (slot s h = Some n \<longrightarrow>
      getKind h s = (Inr (kind n), s) \<and>
      getPos h s = (Inr (tspos s (ident n)), s) \<and>
      getEnd h s = (Inr (tsend s (ident n)), s) \<and>
      containsRange h p e s = (Inr (tspos s (ident n) \<le> p \<and> e \<le> tsend s (ident n)), s) \<and>
      hasInitializer h s = (Inr (tsinitializer s (ident n) \<noteq> None), s) \<and>
      (\<exists>r s'. getChildren h s = (Inr r, s')) \<and>
      (\<exists>r s'. getParent h s = (Inr r, s')) \<and>
      (\<exists>r s'. getInitializer h s = (Inr r, s')) \<and>
      (slot s (sourceFile s h) \<noteq> None \<longrightarrow>
         (\<exists>r. getStart h s = (Inr r, s)) \<and>
         (\<exists>r. getText h s = (Inr r, s)) \<and>
         (\<exists>r. getFullText h s = (Inr r, s)) \<and>
         getChildCount h s = (Inr (length (tschildren n)), s)))"
proof (intro conjI impI)
  assume d: "slot s h = None"
  note c = compilerNode_disposed[OF d]
  show "getKind h s = (Inl (InvalidOperationError removedMsg), s)"
    by (simp add: getKind_def bnd_def c)
  show gp: "getPos h s = (Inl (InvalidOperationError removedMsg), s)"
    by (simp add: getPos_def bnd_def c)
  show "getEnd h s = (Inl (InvalidOperationError removedMsg), s)"
    by (simp add: getEnd_def bnd_def c)
  show "getStart h s = (Inl (InvalidOperationError removedMsg), s)"
    by (simp add: getStart_def bnd_def c)
  show "getText h s = (Inl (InvalidOperationError removedMsg), s)"
    by (simp add: getText_def bnd_def c)
  show "getFullText h s = (Inl (InvalidOperationError removedMsg), s)"
    by (simp add: getFullText_def bnd_def c)
  show "containsRange h p e s = (Inl (InvalidOperationError removedMsg), s)"
    by (simp add: containsRange_def bnd_def gp)
  show gc: "getChildren h s = (Inl (InvalidOperationError removedMsg), s)"
    by (simp add: getChildren_def bnd_def c)
  show "getChildCount h s = (Inl (InvalidOperationError removedMsg), s)"
    by (simp add: getChildCount_def bnd_def c)
  show gpa: "getParent h s = (Inl (InvalidOperationError removedMsg), s)"
    by (simp add: getParent_def bnd_def c)
  show gpt: "getParentOrThrow h s = (Inl (InvalidOperationError removedMsg), s)"
    by (simp add: getParentOrThrow_def bnd_def gpa)
  have ic: "iterChildren h s = (Inl (InvalidOperationError removedMsg), s)"
    by (simp add: iterChildren_def bnd_def c)
  show gfc: "getFirstChild c h s = (Inl (InvalidOperationError removedMsg), s)"
    by (simp add: getFirstChild_def bnd_def ic)
  show "getFirstChildOrThrow c h s = (Inl (InvalidOperationError removedMsg), s)"
    by (simp add: getFirstChildOrThrow_def bnd_def gfc)
  show glc: "getLastChild c h s = (Inl (InvalidOperationError removedMsg), s)"
    by (simp add: getLastChild_def bnd_def gc)
  show "getLastChildOrThrow c h s = (Inl (InvalidOperationError removedMsg), s)"
    by (simp add: getLastChildOrThrow_def bnd_def glc)
  show "getChildAtPos h p s = (Inl (InvalidOperationError removedMsg), s)"
    by (simp add: getChildAtPos_def bnd_def gp)
  show psl: "getParentSyntaxList h s = (Inl (InvalidOperationError removedMsg), s)"
    by (simp add: getParentSyntaxList_def bnd_def gpa)
  have sp: "siblingParent h s = (Inl (InvalidOperationError removedMsg), s)"
    by (simp add: siblingParent_def bnd_def psl)
  show "getPreviousSiblings h s = (Inl (InvalidOperationError removedMsg), s)"
    by (simp add: getPreviousSiblings_def bnd_def sp)
  show "getNextSiblings h s = (Inl (InvalidOperationError removedMsg), s)"
    by (simp add: getNextSiblings_def bnd_def sp)
  show "getChildIndex h s = (Inl (InvalidOperationError removedMsg), s)"
    by (simp add: getChildIndex_def bnd_def sp)
  show "isFirstNodeOnLine h s = (Inl (InvalidOperationError removedMsg), s)"
    by (cases "slot s (sourceFile s h)")
       (simp_all add: isFirstNodeOnLine_def sourceFileFullText_def getStart_def act d)
  show "hasInitializer h s = (Inl (InvalidOperationError removedMsg), s)"
    by (simp add: hasInitializer_def bnd_def c)
  show gi: "getInitializer h s = (Inl (InvalidOperationError removedMsg), s)"
    by (simp add: getInitializer_def bnd_def c)
  show "removeInitializer rc h s = (Inl (InvalidOperationError removedMsg), s)"
    by (simp add: removeInitializer_def bnd_def gi)
  show "setInitializer rc ip txt h s = (Inl (InvalidOperationError removedMsg), s)"
    if "\<not> list_all isWhitespace txt"
    using that by (simp add: setInitializer_def throwIfNotStringOrWhitespace_def hasInitializer_def
        bnd_def ret_def c)
  have lic: "lift (iterChildren h) s = Some (Inl (InvalidOperationError removedMsg), s)"
    by (simp add: lift_def ic)
  show "getDescendants (Suc fuel) h s = Some (Inl (InvalidOperationError removedMsg), s)"
    by (simp add: bndF_def lic)
  show "getFirstDescendant fuel c h s = Some (Inl (InvalidOperationError removedMsg), s)"
    by (simp add: getFirstDescendant_def bndF_def lic)
  have lg: "lift (getChildAtPos h p) s = Some (Inl (InvalidOperationError removedMsg), s)"
    by (simp add: lift_def getChildAtPos_def bnd_def gp)
  show "getDescendantAtPos (Suc fuel) h p s = Some (Inl (InvalidOperationError removedMsg), s)"
    by (simp add: getDescendantAtPos_def bndF_def lg)
  have la: "lift (addPos h k) s = Some (Inl (InvalidOperationError removedMsg), s)"
    by (simp add: lift_def addPos_def bnd_def c)
  show "offsetPositions nodeChildren (Suc fuel) k h s =
        Some (Inl (InvalidOperationError removedMsg), s)"
    by (simp add: bndF_def la)
  have lc: "lift (getChildren h) s = Some (Inl (InvalidOperationError removedMsg), s)"
    by (simp add: lift_def gc)
  show "dispose (Suc fuel) h s = Some (Inl (InvalidOperationError removedMsg), s)"
    by (simp add: bndF_def lc)
next
  assume l: "slot s h = Some n"
  note c = compilerNode_live[OF l]
  show "getKind h s = (Inr (kind n), s)"
    by (simp add: getKind_def bnd_def c ret_def)
  show "getPos h s = (Inr (tspos s (ident n)), s)"
    by (simp add: getPos_def bnd_def c gets_def)
  show "getEnd h s = (Inr (tsend s (ident n)), s)"
    by (simp add: getEnd_def bnd_def c gets_def)
  show "containsRange h p e s = (Inr (tspos s (ident n) \<le> p \<and> e \<le> tsend s (ident n)), s)"
    using l by (simp add: containsRange_def getPos_def getEnd_def act)
  show "hasInitializer h s = (Inr (tsinitializer s (ident n) \<noteq> None), s)"
    by (simp add: hasInitializer_def bnd_def c gets_def)
  show "\<exists>r s'. getChildren h s = (Inr r, s')"
    using mapA_wrap_returns by (simp add: getChildren_def bnd_def c)
  show "\<exists>r s'. getParent h s = (Inr r, s')"
  proof (cases "tsparent s (ident n)")
    case None
    then show ?thesis using l by (simp add: getParent_def act)
  next
    case (Some pn)
    obtain y s' where "wrap h pn s = (Inr y, s')" using wrap_returns by blast
    then show ?thesis using l Some by (simp add: getParent_def act)
  qed
  show "\<exists>r s'. getInitializer h s = (Inr r, s')"
  proof (cases "tsinitializer s (ident n)")
    case None
    then show ?thesis using l by (simp add: getInitializer_def act)
  next
    case (Some pn)
    obtain y s' where "wrap h pn s = (Inr y, s')" using wrap_returns by blast
    then show ?thesis using l Some by (simp add: getInitializer_def act)
  qed
next
  assume l: "slot s h = Some n" and f: "slot s (sourceFile s h) \<noteq> None"
  then obtain fn where fn: "slot s (sourceFile s h) = Some fn" by blast
  show "\<exists>r. getStart h s = (Inr r, s)" using l fn by (simp add: getStart_def act)
  show "\<exists>r. getText h s = (Inr r, s)" using l fn by (simp add: getText_def act)
  show "\<exists>r. getFullText h s = (Inr r, s)" using l fn by (simp add: getFullText_def act)
  show "getChildCount h s = (Inr (length (tschildren n)), s)"
    using l fn by (simp add: getChildCount_def act)
qed

theorem disposed_handle_fails_fast_witness:
  "getKind 3 exSession = (Inl (InvalidOperationError removedMsg), exSession) \<and>
   getPos 3 exSession = (Inl (InvalidOperationError removedMsg), exSession) \<and>
   getChildren 3 exSession = (Inl (InvalidOperationError removedMsg), exSession) \<and>
   getText 3 exSession = (Inl (InvalidOperationError removedMsg), exSession) \<and>
   getKind 1 exSession = (Inr (OtherKind 149), exSession) \<and>
   getPos 1 exSession = (Inr 9, exSession) \<and>
   getEnd 1 exSession = (Inr 18, exSession) \<and>
   getChildCount 1 exSession = (Inr 4, exSession)"
proof -
  have d: "slot exSession 3 = None" and l: "slot exSession 1 = Some exProp"
    and f: "slot exSession (sourceFile exSession 1) \<noteq> None"
    by (simp_all add: exSession_def)
  have v: "kind exProp = OtherKind 149" "tspos exSession (ident exProp) = 9"
    "tsend exSession (ident exProp) = 18" "length (tschildren exProp) = 4"
    by (simp_all add: exSession_def exProp_def)
  show ?thesis
    using disposed_handle_fails_fast[where s = exSession and h = 3]
      disposed_handle_fails_fast[where s = exSession and h = 1 and n = exProp]
      d l f v
    by simp
qed

section \<open>Trees, the cache invariant and wrapping\<close>

subsection \<open>Facts about trees\<close>

lemma idents_subtrees: "idents n = map ident (subtrees n)"
proof (induction n)
  case (TsNode i k cs)
  have "concat (map idents cs) = concat (map (map ident \<circ> subtrees) cs)"
    using TsNode by (induction cs) auto
  then show ?case by (simp add: map_concat)
qed

lemma self_subtree: "n \<in> set (subtrees n)"
  by (cases n) simp

lemma child_subtree: "c \<in> set (tschildren n) \<Longrightarrow> c \<in> set (subtrees n)"
  by (cases n) (auto intro: self_subtree)

lemma subtrees_trans: "m \<in> set (subtrees n) \<Longrightarrow> n \<in> set (subtrees r) \<Longrightarrow> m \<in> set (subtrees r)"
proof (induction r)
  case (TsNode i k cs)
  show ?case
  proof (cases "n = TsNode i k cs")
    case True
    with TsNode.prems show ?thesis by simp
  next
    case False
    with TsNode.prems obtain c where c: "c \<in> set cs" "n \<in> set (subtrees c)" by auto
    with TsNode.IH TsNode.prems(1) have "m \<in> set (subtrees c)" by blast
    with c show ?thesis by auto
  qed
qed

lemma children_in_tree:
  "n \<in> set (subtrees r) \<Longrightarrow> c \<in> set (tschildren n) \<Longrightarrow> c \<in> set (subtrees r)"
  using child_subtree subtrees_trans by blast

lemma ident_inj:
  "distinct (idents r) \<Longrightarrow> a \<in> set (subtrees r) \<Longrightarrow> b \<in> set (subtrees r) \<Longrightarrow>
   ident a = ident b \<Longrightarrow> a = b"
  by (simp add: idents_subtrees distinct_map inj_on_def)

lemma distinct_subtree:
  "distinct (idents r) \<Longrightarrow> n \<in> set (subtrees r) \<Longrightarrow> distinct (idents n)"
proof (induction r)
  case (TsNode i k cs)
  show ?case
  proof (cases "n = TsNode i k cs")
    case True
    with TsNode.prems show ?thesis by simp
  next
    case False
    with TsNode.prems obtain c where c: "c \<in> set cs" "n \<in> set (subtrees c)" by auto
    from TsNode.prems(1) have "distinct (concat (map idents cs))" by simp
    with c(1) have "distinct (idents c)" by (auto simp: distinct_concat_iff)
    with TsNode.IH c show ?thesis by blast
  qed
qed

lemma fold_max_ge: "a \<le> fold max xs (a::nat)"
proof (induction xs arbitrary: a)
  case Nil show ?case by simp
next
  case (Cons x xs)
  have "a \<le> max x a" by simp
  also have "\<dots> \<le> fold max xs (max x a)" by (rule Cons)
  finally show ?case by simp
qed

lemma fold_max_mem: "x \<in> set xs \<Longrightarrow> x \<le> fold max xs (a::nat)"
proof (induction xs arbitrary: a)
  case Nil then show ?case by simp
next
  case (Cons y ys)
  show ?case
  proof (cases "x = y")
    case True
    have "x \<le> max y a" using True by simp
    also have "\<dots> \<le> fold max ys (max y a)" by (rule fold_max_ge)
    finally show ?thesis by simp
  next
    case False
    with Cons.prems have "x \<in> set ys" by simp
    then show ?thesis using Cons.IH by simp
  qed
qed

lemma height_child: "c \<in> set (tschildren n) \<Longrightarrow> height c < height n"
proof (cases n)
  case (TsNode i k cs)
  assume "c \<in> set (tschildren n)"
  with TsNode have "height c \<in> set (map height cs)" by simp
  then have "height c \<le> fold max (map height cs) 0" by (rule fold_max_mem)
  with TsNode show ?thesis by simp
qed

lemma children_distinct:
  "distinct (idents n) \<Longrightarrow> distinct (concat (map idents (tschildren n)))"
  by (cases n) simp

lemma ident_not_in_children:
  "distinct (idents n) \<Longrightarrow> ident n \<notin> set (concat (map idents (tschildren n)))"
  by (cases n) simp

lemma idents_node: "set (idents n) = insert (ident n) (set (concat (map idents (tschildren n))))"
  by (cases n) simp

lemma ident_in_idents: "ident n \<in> set (idents n)"
  by (cases n) simp

subsection \<open>The cache invariant\<close>

lemma cacheOkD:
  "cacheOk r s \<Longrightarrow> n \<in> set (subtrees r) \<Longrightarrow> nodeCache s (ident n) = Some h \<Longrightarrow>
   h < nextHandle s \<and> slot s h = Some n"
  by (auto simp: cacheOk_def list_all_iff split: option.splits)

lemma cacheOkI:
  "distinct (idents r) \<Longrightarrow>
   (\<And>n h. n \<in> set (subtrees r) \<Longrightarrow> nodeCache s (ident n) = Some h \<Longrightarrow>
      h < nextHandle s \<and> slot s h = Some n) \<Longrightarrow> cacheOk r s"
  by (auto simp: cacheOk_def list_all_iff split: option.splits)

lemma cacheOk_distinct: "cacheOk r s \<Longrightarrow> distinct (idents r)"
  by (simp add: cacheOk_def)

lemma fileOkD:
  "fileOk r sf s \<Longrightarrow> n \<in> set (subtrees r) \<Longrightarrow> nodeCache s (ident n) = Some h \<Longrightarrow>
   sourceFile s h = sf"
  by (auto simp: fileOk_def list_all_iff split: option.splits)

lemma fileOk_live: "fileOk r sf s \<Longrightarrow> sf < nextHandle s \<and> slot s sf \<noteq> None"
  by (simp add: fileOk_def)

lemma handlesKept_refl: "handlesKept s s"
  by (simp add: handlesKept_def)

lemma handlesKept_trans: "handlesKept a b \<Longrightarrow> handlesKept b c \<Longrightarrow> handlesKept a c"
  unfolding handlesKept_def by (metis le_trans less_le_trans)

lemma sameNodes_refl: "sameNodes s s"
  by (simp add: sameNodes_def)

lemma sameNodes_trans: "sameNodes a b \<Longrightarrow> sameNodes b c \<Longrightarrow> sameNodes a c"
  by (simp add: sameNodes_def)

text \<open>Wrapping one node of the tree.\<close>

lemma wrap_tree:
  assumes ok: "cacheOk r s" and c: "c \<in> set (subtrees r)"
  obtains y s' where "wrap h c s = (Inr y, s')" "cacheOk r s'" "handlesKept s s'"
    "sameNodes s s'" "nodeCache s' (ident c) = Some y"
    "\<And>k. k \<noteq> ident c \<Longrightarrow> nodeCache s' k = nodeCache s k"
    "sourceFile s' y = (if nodeCache s (ident c) = None then sourceFile s h else sourceFile s y)"
proof (cases "nodeCache s (ident c)")
  case (Some y)
  then have "wrap h c s = (Inr y, s)" by (simp add: wrap_def getNodeFromCompilerNode_def)
  with Some ok show ?thesis
    by (intro that[of y s]) (simp_all add: handlesKept_refl sameNodes_refl)
next
  case None
  define s' where "s' = s\<lparr>slot := (slot s)(nextHandle s := Some c),
             sourceFile := (sourceFile s)(nextHandle s := sourceFile s h),
             nodeCache := (nodeCache s)(ident c := Some (nextHandle s)),
             nextHandle := Suc (nextHandle s)\<rparr>"
  have w: "wrap h c s = (Inr (nextHandle s), s')"
    using None by (simp add: wrap_def getNodeFromCompilerNode_def s'_def)
  have ok': "cacheOk r s'"
  proof (rule cacheOkI)
    show "distinct (idents r)" using ok by (rule cacheOk_distinct)
  next
    fix n h' assume n: "n \<in> set (subtrees r)" and e: "nodeCache s' (ident n) = Some h'"
    show "h' < nextHandle s' \<and> slot s' h' = Some n"
    proof (cases "ident n = ident c")
      case True
      then have "n = c" using ident_inj[OF cacheOk_distinct[OF ok] n c] by simp
      with e True show ?thesis by (simp add: s'_def)
    next
      case False
      with e have "nodeCache s (ident n) = Some h'" by (simp add: s'_def)
      from cacheOkD[OF ok n this] show ?thesis by (auto simp: s'_def)
    qed
  qed
  have hk: "handlesKept s s'"
    using None by (auto simp: handlesKept_def s'_def)
  have sn: "sameNodes s s'" by (simp add: sameNodes_def s'_def)
  show ?thesis
    by (rule that[OF w ok' hk sn]) (simp_all add: s'_def None)
qed

text \<open>Wrapping a list of nodes of the tree, as \<^verbatim>\<open>getChildren\<close> does.\<close>

lemma mapA_wrap_tree:
  assumes "cacheOk r s" and "set cs \<subseteq> set (subtrees r)"
  obtains hs s' where "mapA (wrap h) cs s = (Inr hs, s')" "cacheOk r s'" "handlesKept s s'"
    "sameNodes s s'" "map (\<lambda>c. nodeCache s' (ident c)) cs = map Some hs"
    "\<And>k. k \<notin> ident ` set cs \<Longrightarrow> nodeCache s' k = nodeCache s k"
proof -
  have "\<exists>hs s'. mapA (wrap h) cs s = (Inr hs, s') \<and> cacheOk r s' \<and> handlesKept s s' \<and>
      sameNodes s s' \<and> map (\<lambda>c. nodeCache s' (ident c)) cs = map Some hs \<and>
      (\<forall>k. k \<notin> ident ` set cs \<longrightarrow> nodeCache s' k = nodeCache s k)"
    using assms
  proof (induction cs arbitrary: s)
    case Nil
    then show ?case by (simp add: ret_def handlesKept_refl sameNodes_refl)
  next
    case (Cons c cs)
    from Cons.prems have c: "c \<in> set (subtrees r)" and cs: "set cs \<subseteq> set (subtrees r)" by auto
    obtain y s1 where w: "wrap h c s = (Inr y, s1)" and ok1: "cacheOk r s1"
      and hk1: "handlesKept s s1" and sn1: "sameNodes s s1"
      and e1: "nodeCache s1 (ident c) = Some y"
      and f1: "\<And>k. k \<noteq> ident c \<Longrightarrow> nodeCache s1 k = nodeCache s k"
      using wrap_tree[OF Cons.prems(1) c, of h] by metis
    from Cons.IH[OF ok1 cs] obtain hs s2 where
      m: "mapA (wrap h) cs s1 = (Inr hs, s2)" and ok2: "cacheOk r s2"
      and hk2: "handlesKept s1 s2" and sn2: "sameNodes s1 s2"
      and e2: "map (\<lambda>c. nodeCache s2 (ident c)) cs = map Some hs"
      and f2: "\<forall>k. k \<notin> ident ` set cs \<longrightarrow> nodeCache s2 k = nodeCache s1 k"
      by blast
    have run: "mapA (wrap h) (c # cs) s = (Inr (y # hs), s2)"
      using w m by (simp add: bnd_def ret_def)
    have "nodeCache s2 (ident c) = Some y"
      using e1 hk2 by (simp add: handlesKept_def)
    with e2 have e: "map (\<lambda>c. nodeCache s2 (ident c)) (c # cs) = map Some (y # hs)" by simp
    have f: "\<forall>k. k \<notin> ident ` set (c # cs) \<longrightarrow> nodeCache s2 k = nodeCache s k"
      using f1 f2 by simp
    show ?case
      using run ok2 handlesKept_trans[OF hk1 hk2] sameNodes_trans[OF sn1 sn2] e f by blast
  qed
  then show ?thesis using that by blast
qed

lemma getChildren_tree:
  assumes ok: "cacheOk r s" and n: "n \<in> set (subtrees r)" and l: "slot s h = Some n"
  obtains hs s' where "getChildren h s = (Inr hs, s')" "cacheOk r s'" "handlesKept s s'"
    "sameNodes s s'" "map (\<lambda>c. nodeCache s' (ident c)) (tschildren n) = map Some hs"
    "\<And>k. k \<notin> ident ` set (tschildren n) \<Longrightarrow> nodeCache s' k = nodeCache s k"
proof -
  have sub: "set (tschildren n) \<subseteq> set (subtrees r)"
    using children_in_tree[OF n] by blast
  obtain hs s' where m: "mapA (wrap h) (tschildren n) s = (Inr hs, s')" and
    rest: "cacheOk r s'" "handlesKept s s'"
    "sameNodes s s'" "map (\<lambda>c. nodeCache s' (ident c)) (tschildren n) = map Some hs"
    "\<And>k. k \<notin> ident ` set (tschildren n) \<Longrightarrow> nodeCache s' k = nodeCache s k"
    using mapA_wrap_tree[OF ok sub, of h] by metis
  have "getChildren h s = (Inr hs, s')"
    using l m by (simp add: getChildren_def bnd_def compilerNode_def)
  then show ?thesis using rest that by blast
qed

subsection \<open>The relation between the sessions before and after\<close>

lemma released_refl: "cacheOk r s \<Longrightarrow> released r {} s s"
  by (simp add: released_def)

lemma released_trans:
  assumes ok: "cacheOk r s" and a: "released r K1 s s1" and b: "released r K2 s1 s2"
    and d: "K1 \<inter> K2 = {}"
  shows "released r (K1 \<union> K2) s s2"
  unfolding released_def
proof (intro conjI ballI impI allI)
  show "cacheOk r s2" using b by (simp add: released_def)
  show "nextHandle s \<le> nextHandle s2" using a b by (simp add: released_def)
next
  fix m assume m: "m \<in> set (subtrees r)" and k: "ident m \<in> K1 \<union> K2"
  show "nodeCache s2 (ident m) = None"
  proof (cases "ident m \<in> K2")
    case True
    with b m show ?thesis by (simp add: released_def)
  next
    case False
    with k have "ident m \<in> K1" by simp
    with a m have "nodeCache s1 (ident m) = None" by (simp add: released_def)
    moreover from b m False have "nodeCache s2 (ident m) = nodeCache s1 (ident m)"
      by (simp add: released_def)
    ultimately show ?thesis by simp
  qed
next
  fix m h assume m: "m \<in> set (subtrees r)" and k: "ident m \<in> K1 \<union> K2"
    and e: "nodeCache s (ident m) = Some h"
  from cacheOkD[OF ok m e] have hlt: "h < nextHandle s" by simp
  show "slot s2 h = None"
  proof (cases "ident m \<in> K1")
    case True
    with a m e have "slot s1 h = None" by (simp add: released_def)
    moreover have "h < nextHandle s1" using hlt a by (simp add: released_def)
    ultimately show ?thesis using b by (auto simp: released_def)
  next
    case False
    with k have k2: "ident m \<in> K2" by simp
    from a m False e have "nodeCache s1 (ident m) = Some h" by (simp add: released_def)
    with b m k2 show ?thesis by (simp add: released_def)
  qed
next
  fix m assume m: "m \<in> set (subtrees r)" and k: "ident m \<notin> K1 \<union> K2"
  with a b show "nodeCache s2 (ident m) = nodeCache s (ident m)" by (simp add: released_def)
next
  fix h assume h: "h < nextHandle s"
  with a have 1: "slot s1 h = slot s h \<or> slot s1 h = None" by (simp add: released_def)
  from h a have "h < nextHandle s1" by (simp add: released_def)
  with b have "slot s2 h = slot s1 h \<or> slot s2 h = None" by (simp add: released_def)
  with 1 show "slot s2 h = slot s h \<or> slot s2 h = None" by auto
qed

lemma released_after_wrap:
  assumes hk: "handlesKept s s1" and f: "\<And>k. k \<notin> C \<Longrightarrow> nodeCache s1 k = nodeCache s k"
    and b: "released r K s1 s2" and sub: "C \<subseteq> K"
  shows "released r K s s2"
  unfolding released_def
proof (intro conjI ballI impI allI)
  show "cacheOk r s2" using b by (simp add: released_def)
  show "nextHandle s \<le> nextHandle s2" using hk b by (simp add: released_def handlesKept_def)
next
  fix m assume m: "m \<in> set (subtrees r)" and k: "ident m \<in> K"
  with b show "nodeCache s2 (ident m) = None" by (simp add: released_def)
next
  fix m h assume m: "m \<in> set (subtrees r)" and k: "ident m \<in> K"
    and e: "nodeCache s (ident m) = Some h"
  from e hk have "nodeCache s1 (ident m) = Some h" by (simp add: handlesKept_def)
  with b m k show "slot s2 h = None" by (simp add: released_def)
next
  fix m assume m: "m \<in> set (subtrees r)" and k: "ident m \<notin> K"
  with sub have "ident m \<notin> C" by auto
  with f have "nodeCache s1 (ident m) = nodeCache s (ident m)" by simp
  with b m k show "nodeCache s2 (ident m) = nodeCache s (ident m)" by (simp add: released_def)
next
  fix h assume h: "h < nextHandle s"
  with hk have 1: "slot s1 h = slot s h" and lt: "h < nextHandle s1"
    by (auto simp: handlesKept_def)
  from lt b have "slot s2 h = slot s1 h \<or> slot s2 h = None" by (simp add: released_def)
  with 1 show "slot s2 h = slot s h \<or> slot s2 h = None" by simp
qed

lemma released_self:
  assumes ok: "cacheOk r s" and b: "released r K s s2" and n: "n \<in> set (subtrees r)"
    and e: "nodeCache s2 (ident n) = Some h" and k: "ident n \<notin> K"
  shows "released r (insert (ident n) K) s (clearSlot h (removeNodeFromCache h s2))"
  unfolding released_def
proof (intro conjI ballI impI allI)
  have ok2: "cacheOk r s2" using b by (simp add: released_def)
  note hn = cacheOkD[OF ok2 n e]
  have e0: "nodeCache s (ident n) = Some h" using b n k e by (simp add: released_def)
  show "cacheOk r (clearSlot h (removeNodeFromCache h s2))"
  proof (rule cacheOkI)
    show "distinct (idents r)" using ok by (rule cacheOk_distinct)
  next
    fix m h' assume m: "m \<in> set (subtrees r)"
      and c: "nodeCache (clearSlot h (removeNodeFromCache h s2)) (ident m) = Some h'"
    then have c2: "nodeCache s2 (ident m) = Some h'" and ne: "h' \<noteq> h"
      by (auto simp: clearSlot_def removeNodeFromCache_def split: if_splits)
    from cacheOkD[OF ok2 m c2] ne
    show "h' < nextHandle (clearSlot h (removeNodeFromCache h s2)) \<and>
          slot (clearSlot h (removeNodeFromCache h s2)) h' = Some m"
      by (simp add: clearSlot_def removeNodeFromCache_def)
  qed
  show "nextHandle s \<le> nextHandle (clearSlot h (removeNodeFromCache h s2))"
    using b by (simp add: released_def clearSlot_def removeNodeFromCache_def)
  {
    fix m assume m: "m \<in> set (subtrees r)" and km: "ident m \<in> insert (ident n) K"
    show "nodeCache (clearSlot h (removeNodeFromCache h s2)) (ident m) = None"
    proof (cases "ident m = ident n")
      case True
      with e show ?thesis by (simp add: clearSlot_def removeNodeFromCache_def)
    next
      case False
      with km b m have "nodeCache s2 (ident m) = None" by (simp add: released_def)
      then show ?thesis by (simp add: clearSlot_def removeNodeFromCache_def)
    qed
  }
  {
    fix m h' assume m: "m \<in> set (subtrees r)" and km: "ident m \<in> insert (ident n) K"
      and c: "nodeCache s (ident m) = Some h'"
    show "slot (clearSlot h (removeNodeFromCache h s2)) h' = None"
    proof (cases "ident m = ident n")
      case True
      with c e0 have "h' = h" by simp
      then show ?thesis by (simp add: clearSlot_def removeNodeFromCache_def)
    next
      case False
      with km b m c have "slot s2 h' = None" by (simp add: released_def)
      then show ?thesis by (simp add: clearSlot_def removeNodeFromCache_def)
    qed
  }
  {
    fix m assume m: "m \<in> set (subtrees r)" and km: "ident m \<notin> insert (ident n) K"
    then have k2: "ident m \<notin> K" and ne: "ident m \<noteq> ident n" by auto
    have "nodeCache s2 (ident m) \<noteq> Some h"
    proof
      assume "nodeCache s2 (ident m) = Some h"
      from cacheOkD[OF ok2 m this] hn have "m = n" by simp
      with ne show False by simp
    qed
    moreover from b m k2 have "nodeCache s2 (ident m) = nodeCache s (ident m)"
      by (simp add: released_def)
    ultimately show "nodeCache (clearSlot h (removeNodeFromCache h s2)) (ident m) = nodeCache s (ident m)"
      by (simp add: clearSlot_def removeNodeFromCache_def)
  }
  {
    fix h' assume "h' < nextHandle s"
    with b have "slot s2 h' = slot s h' \<or> slot s2 h' = None" by (simp add: released_def)
    then show "slot (clearSlot h (removeNodeFromCache h s2)) h' = slot s h' \<or>
               slot (clearSlot h (removeNodeFromCache h s2)) h' = None"
      by (auto simp: clearSlot_def removeNodeFromCache_def)
  }
qed

section \<open>Disposal of a subtree\<close>

lemma dispose_children:
  assumes ih: "\<And>c y t. c \<in> set cs \<Longrightarrow> cacheOk r t \<Longrightarrow> nodeCache t (ident c) = Some y \<Longrightarrow>
      \<exists>t'. dispose f y t = Some (Inr (), t') \<and> released r (set (idents c)) t t'"
    and ok: "cacheOk r s" and sub: "set cs \<subseteq> set (subtrees r)"
    and d: "distinct (concat (map idents cs))"
    and e: "map (\<lambda>c. nodeCache s (ident c)) cs = map Some hs"
  shows "\<exists>s'. forEachF (dispose f) hs s = Some (Inr (), s') \<and>
      released r (set (concat (map idents cs))) s s'"
  using ih ok sub d e
proof (induction cs arbitrary: hs s)
  case Nil
  then show ?case by (simp add: lift_def ret_def released_refl)
next
  case (Cons c cs)
  from Cons.prems(5) obtain y ys where hs: "hs = y # ys" and ey: "nodeCache s (ident c) = Some y"
    and eys: "map (\<lambda>c. nodeCache s (ident c)) cs = map Some ys"
    by (cases hs) auto
  from Cons.prems(1)[of c s y] Cons.prems(2) ey obtain s1 where
    d1: "dispose f y s = Some (Inr (), s1)" and r1: "released r (set (idents c)) s s1"
    by auto
  have ok1: "cacheOk r s1" using r1 by (simp add: released_def)
  from Cons.prems(3) have sub': "set cs \<subseteq> set (subtrees r)" by simp
  from Cons.prems(4) have d': "distinct (concat (map idents cs))"
    and disj: "set (idents c) \<inter> set (concat (map idents cs)) = {}" by auto
  have eys1: "map (\<lambda>c. nodeCache s1 (ident c)) cs = map Some ys"
  proof -
    have "nodeCache s1 (ident c') = nodeCache s (ident c')" if "c' \<in> set cs" for c'
    proof -
      from that sub' have m: "c' \<in> set (subtrees r)" by auto
      have "ident c' \<in> set (concat (map idents cs))" using that ident_in_idents by auto
      with disj have "ident c' \<notin> set (idents c)" by auto
      with r1 m show ?thesis by (simp add: released_def)
    qed
    then have "map (\<lambda>c. nodeCache s1 (ident c)) cs = map (\<lambda>c. nodeCache s (ident c)) cs"
      by simp
    with eys show ?thesis by simp
  qed
  have ih': "\<And>c' y t. c' \<in> set cs \<Longrightarrow> cacheOk r t \<Longrightarrow> nodeCache t (ident c') = Some y \<Longrightarrow>
      \<exists>t'. dispose f y t = Some (Inr (), t') \<and> released r (set (idents c')) t t'"
    using Cons.prems(1) by simp
  from Cons.IH[OF ih' ok1 sub' d' eys1] obtain s2 where
    l2: "forEachF (dispose f) ys s1 = Some (Inr (), s2)"
    and r2: "released r (set (concat (map idents cs))) s1 s2" by blast
  have "forEachF (dispose f) hs s = Some (Inr (), s2)"
    using hs d1 l2 by (simp add: bndF_def)
  moreover have "released r (set (concat (map idents (c # cs)))) s s2"
    using released_trans[OF Cons.prems(2) r1 r2 disj] by simp
  ultimately show ?case by blast
qed


lemma dispose_step:
  assumes ih: "\<And>c y t. c \<in> set (tschildren n) \<Longrightarrow> cacheOk r t \<Longrightarrow>
      nodeCache t (ident c) = Some y \<Longrightarrow>
      \<exists>t'. dispose f y t = Some (Inr (), t') \<and> released r (set (idents c)) t t'"
    and ok: "cacheOk r s" and n: "n \<in> set (subtrees r)" and e: "nodeCache s (ident n) = Some h"
  shows "\<exists>hs s1 s2. getChildren h s = (Inr hs, s1) \<and>
      forEachF (dispose f) hs s1 = Some (Inr (), s2) \<and>
      released r (set (concat (map idents (tschildren n)))) s s2 \<and>
      nodeCache s2 (ident n) = Some h \<and> slot s2 h = Some n \<and>
      dispose (Suc f) h s = Some (Inr (), clearSlot h (removeNodeFromCache h s2)) \<and>
      released r (set (idents n)) s (clearSlot h (removeNodeFromCache h s2))"
proof -
  note hn = cacheOkD[OF ok n e]
  have dn: "distinct (idents n)" using distinct_subtree[OF cacheOk_distinct[OF ok] n] .
  obtain hs s1 where g: "getChildren h s = (Inr hs, s1)" and ok1: "cacheOk r s1"
    and hk: "handlesKept s s1"
    and es: "map (\<lambda>c. nodeCache s1 (ident c)) (tschildren n) = map Some hs"
    and fr: "\<And>k. k \<notin> ident ` set (tschildren n) \<Longrightarrow> nodeCache s1 k = nodeCache s k"
  proof -
    from hn have "slot s h = Some n" by simp
    from getChildren_tree[OF ok n this] show ?thesis using that by blast
  qed
  have sub: "set (tschildren n) \<subseteq> set (subtrees r)" using children_in_tree[OF n] by blast
  from dispose_children[OF ih ok1 sub children_distinct[OF dn] es] obtain s2 where
    l: "forEachF (dispose f) hs s1 = Some (Inr (), s2)"
    and r2: "released r (set (concat (map idents (tschildren n)))) s1 s2" by blast
  have csub: "ident ` set (tschildren n) \<subseteq> set (concat (map idents (tschildren n)))"
    using ident_in_idents by auto
  have r3: "released r (set (concat (map idents (tschildren n)))) s s2"
    using released_after_wrap[OF hk fr r2 csub] by simp
  have nk: "ident n \<notin> set (concat (map idents (tschildren n)))"
    using ident_not_in_children[OF dn] .
  have e2: "nodeCache s2 (ident n) = Some h" using r3 n nk e by (simp add: released_def)
  have ok2: "cacheOk r s2" using r3 by (simp add: released_def)
  have l2: "slot s2 h = Some n" using cacheOkD[OF ok2 n e2] by simp
  have run: "dispose (Suc f) h s = Some (Inr (), clearSlot h (removeNodeFromCache h s2))"
    by (simp only: dispose.simps bndF_def lift_def g option.case prod.case sum.case l modify_def)
  have "released r (insert (ident n) (set (concat (map idents (tschildren n))))) s
         (clearSlot h (removeNodeFromCache h s2))"
    using released_self[OF ok r3 n e2 nk] .
  then have r4: "released r (set (idents n)) s (clearSlot h (removeNodeFromCache h s2))"
    by (simp only: idents_node)
  show ?thesis
    by (intro exI[of _ hs] exI[of _ s1] exI[of _ s2] conjI) (fact g l r3 e2 l2 run r4)+
qed

lemma dispose_tree:
  "cacheOk r s \<Longrightarrow> n \<in> set (subtrees r) \<Longrightarrow> nodeCache s (ident n) = Some h \<Longrightarrow>
   height n \<le> fuel \<Longrightarrow>
   \<exists>s'. dispose fuel h s = Some (Inr (), s') \<and> released r (set (idents n)) s s'"
proof (induction fuel arbitrary: n h s)
  case 0
  then show ?case by (cases n) simp
next
  case (Suc f)
  have ih: "\<And>c y t. c \<in> set (tschildren n) \<Longrightarrow> cacheOk r t \<Longrightarrow>
      nodeCache t (ident c) = Some y \<Longrightarrow>
      \<exists>t'. dispose f y t = Some (Inr (), t') \<and> released r (set (idents c)) t t'"
  proof -
    fix c y t assume c: "c \<in> set (tschildren n)" and t: "cacheOk r t"
      and y: "nodeCache t (ident c) = Some y"
    have "height c \<le> f" using height_child[OF c] Suc.prems(4) by simp
    from Suc.IH[OF t children_in_tree[OF Suc.prems(2) c] y this]
    show "\<exists>t'. dispose f y t = Some (Inr (), t') \<and> released r (set (idents c)) t t'" .
  qed
  from dispose_step[OF ih Suc.prems(1,2,3)] obtain s2 where
    "dispose (Suc f) h s = Some (Inr (), clearSlot h (removeNodeFromCache h s2))"
    "released r (set (idents n)) s (clearSlot h (removeNodeFromCache h s2))" by blast
  then show ?case by (intro exI[of _ "clearSlot h (removeNodeFromCache h s2)"] conjI)
qed

lemma idents_in_tree:
  "n \<in> set (subtrees r) \<Longrightarrow> k \<in> set (idents n) \<Longrightarrow> \<exists>m \<in> set (subtrees r). m \<in> set (subtrees n) \<and> ident m = k"
  using subtrees_trans by (auto simp: idents_subtrees)

lemma released_cache:
  assumes "released r K s s'" and "n \<in> set (subtrees r)" and "set (idents n) \<subseteq> K"
  shows "list_all (\<lambda>k. nodeCache s' k = None) (idents n)"
    and "list_all (\<lambda>m. case nodeCache s (ident m) of None \<Rightarrow> True | Some h' \<Rightarrow> slot s' h' = None)
           (subtrees n)"
proof -
  show "list_all (\<lambda>k. nodeCache s' k = None) (idents n)"
    unfolding list_all_iff
  proof
    fix k assume k: "k \<in> set (idents n)"
    from idents_in_tree[OF assms(2) k] obtain m where "m \<in> set (subtrees r)" "ident m = k"
      by blast
    with assms(1,3) k show "nodeCache s' k = None" by (auto simp: released_def)
  qed
  show "list_all (\<lambda>m. case nodeCache s (ident m) of None \<Rightarrow> True | Some h' \<Rightarrow> slot s' h' = None)
           (subtrees n)"
    unfolding list_all_iff
  proof
    fix m assume m: "m \<in> set (subtrees n)"
    then have mr: "m \<in> set (subtrees r)" using assms(2) subtrees_trans by blast
    from m have "ident m \<in> set (idents n)" by (simp add: idents_subtrees)
    with assms(3) have "ident m \<in> K" by auto
    with assms(1) mr show "case nodeCache s (ident m) of None \<Rightarrow> True | Some h' \<Rightarrow> slot s' h' = None"
      by (auto simp: released_def split: option.splits)
  qed
qed

text \<open>
  C1: \<^verbatim>\<open>dispose()\<close> on the handle that the cache holds for a node of the tree returns when
  the fuel covers the height of the node. It wraps the children, disposes each of them
  in full, and after that loop (session \<open>s2\<close>) no node below the handle's node has a
  cache entry and the handles they had are cleared, while the handle itself is still in
  the cache and live; then it is removed from the cache and then its slot is cleared.
  In the end no node of the subtree has a cache entry, and the handle and the handles
  that the subtree's nodes had are cleared.
\<close>

theorem dispose_children_first:
  assumes "cacheOk r s" and "n \<in> set (subtrees r)" and "nodeCache s (ident n) = Some h"
    and "height n \<le> Suc f"
  shows "\<exists>hs s1 s2 s'.
      getChildren h s = (Inr hs, s1) \<and>
      forEachF (dispose f) hs s1 = Some (Inr (), s2) \<and>
      list_all (\<lambda>k. nodeCache s2 k = None) (concat (map idents (tschildren n))) \<and>
      list_all (\<lambda>m. case nodeCache s (ident m) of None \<Rightarrow> True | Some h' \<Rightarrow> slot s2 h' = None)
        (concat (map subtrees (tschildren n))) \<and>
      nodeCache s2 (ident n) = Some h \<and> slot s2 h = Some n \<and>
      s' = clearSlot h (removeNodeFromCache h s2) \<and>
      dispose (Suc f) h s = Some (Inr (), s') \<and>
      list_all (\<lambda>k. nodeCache s' k = None) (idents n) \<and>
      slot s' h = None \<and>
      list_all (\<lambda>m. case nodeCache s (ident m) of None \<Rightarrow> True | Some h' \<Rightarrow> slot s' h' = None)
        (subtrees n)"
proof -
  have ih: "\<And>c y t. c \<in> set (tschildren n) \<Longrightarrow> cacheOk r t \<Longrightarrow>
      nodeCache t (ident c) = Some y \<Longrightarrow>
      \<exists>t'. dispose f y t = Some (Inr (), t') \<and> released r (set (idents c)) t t'"
  proof -
    fix c y t assume c: "c \<in> set (tschildren n)" and t: "cacheOk r t"
      and y: "nodeCache t (ident c) = Some y"
    have "height c \<le> f" using height_child[OF c] assms(4) by simp
    from dispose_tree[OF t children_in_tree[OF assms(2) c] y this]
    show "\<exists>t'. dispose f y t = Some (Inr (), t') \<and> released r (set (idents c)) t t'" .
  qed
  from dispose_step[OF ih assms(1,2,3)] obtain hs s1 s2 where
    g: "getChildren h s = (Inr hs, s1)" and
    l: "forEachF (dispose f) hs s1 = Some (Inr (), s2)" and
    r2: "released r (set (concat (map idents (tschildren n)))) s s2" and
    e2: "nodeCache s2 (ident n) = Some h" and l2: "slot s2 h = Some n" and
    run: "dispose (Suc f) h s = Some (Inr (), clearSlot h (removeNodeFromCache h s2))" and
    r4: "released r (set (idents n)) s (clearSlot h (removeNodeFromCache h s2))"
    by blast
  have a: "list_all (\<lambda>k. nodeCache s2 k = None) (concat (map idents (tschildren n)))"
    unfolding list_all_iff
  proof
    fix k assume "k \<in> set (concat (map idents (tschildren n)))"
    then obtain c where c: "c \<in> set (tschildren n)" and k: "k \<in> set (idents c)" by auto
    have "set (idents c) \<subseteq> set (concat (map idents (tschildren n)))" using c by auto
    from released_cache(1)[OF r2 children_in_tree[OF assms(2) c] this] k
    show "nodeCache s2 k = None" by (simp add: list_all_iff)
  qed
  have b: "list_all (\<lambda>m. case nodeCache s (ident m) of None \<Rightarrow> True | Some h' \<Rightarrow> slot s2 h' = None)
        (concat (map subtrees (tschildren n)))"
    unfolding list_all_iff
  proof
    fix m assume "m \<in> set (concat (map subtrees (tschildren n)))"
    then obtain c where c: "c \<in> set (tschildren n)" and m: "m \<in> set (subtrees c)" by auto
    have "set (idents c) \<subseteq> set (concat (map idents (tschildren n)))" using c by auto
    from released_cache(2)[OF r2 children_in_tree[OF assms(2) c] this] m
    show "case nodeCache s (ident m) of None \<Rightarrow> True | Some h' \<Rightarrow> slot s2 h' = None"
      by (simp add: list_all_iff)
  qed
  have c: "slot (clearSlot h (removeNodeFromCache h s2)) h = None"
    by (simp add: clearSlot_def)
  note d = released_cache[OF r4 assms(2) subset_refl]
  show ?thesis
    by (intro exI[of _ hs] exI[of _ s1] exI[of _ s2]
          exI[of _ "clearSlot h (removeNodeFromCache h s2)"] conjI)
       (fact g l a b e2 l2 refl run d c)+
qed

lemmas exTree = exFile_def exStatements_def exClass_def exMembers_def exProp_def exInit_def

lemma exSession_ok: "cacheOk exFile exSession"
  by (simp add: cacheOk_def exTree exSession_def)

theorem dispose_children_first_witness:
  "\<exists>s'. dispose 4 2 exSession = Some (Inr (), s') \<and>
     nodeCache s' 2 = None \<and> nodeCache s' 7 = None \<and> nodeCache s' 10 = None \<and>
     slot s' 2 = None \<and> slot s' 1 = None"
proof -
  have n: "exClass \<in> set (subtrees exFile)" by (simp add: exTree)
  have e: "nodeCache exSession (ident exClass) = Some 2" by (simp add: exSession_def exClass_def)
  have h: "height exClass \<le> Suc 3" by (simp add: exTree)
  from dispose_children_first[OF exSession_ok n e h] obtain s' where
    run: "dispose (Suc 3) 2 exSession = Some (Inr (), s')" and
    c: "list_all (\<lambda>k. nodeCache s' k = None) (idents exClass)" and
    d: "slot s' 2 = None" and
    o: "list_all (\<lambda>m. case nodeCache exSession (ident m) of None \<Rightarrow> True
                        | Some h' \<Rightarrow> slot s' h' = None) (subtrees exClass)"
    by blast
  have four: "Suc 3 = 4" by simp
  from c have c': "nodeCache s' 2 = None \<and> nodeCache s' 7 = None \<and> nodeCache s' 10 = None"
    by (simp add: exTree)
  from o have o': "slot s' 1 = None" by (simp add: exTree exSession_def)
  show ?thesis using run c' d o' unfolding four by blast
qed

section \<open>Offsetting the positions of a subtree\<close>

lemma shifted_refl: "cacheOk r s \<Longrightarrow> shifted r {} k s s"
  by (simp add: shifted_def handlesKept_refl)

lemma shifted_trans:
  assumes a: "shifted r K1 k s s1" and b: "shifted r K2 k s1 s2" and d: "K1 \<inter> K2 = {}"
  shows "shifted r (K1 \<union> K2) k s s2"
proof -
  have hk: "handlesKept s s2"
    using a b handlesKept_trans by (auto simp: shifted_def)
  have p: "tspos s2 i = (if i \<in> K1 \<union> K2 then tspos s i + k else tspos s i)" for i
  proof -
    have 1: "tspos s1 i = (if i \<in> K1 then tspos s i + k else tspos s i)"
      using a by (simp add: shifted_def)
    have 2: "tspos s2 i = (if i \<in> K2 then tspos s1 i + k else tspos s1 i)"
      using b by (simp add: shifted_def)
    show ?thesis using 1 2 d by auto
  qed
  have e: "tsend s2 i = (if i \<in> K1 \<union> K2 then tsend s i + k else tsend s i)" for i
  proof -
    have 1: "tsend s1 i = (if i \<in> K1 then tsend s i + k else tsend s i)"
      using a by (simp add: shifted_def)
    have 2: "tsend s2 i = (if i \<in> K2 then tsend s1 i + k else tsend s1 i)"
      using b by (simp add: shifted_def)
    show ?thesis using 1 2 d by auto
  qed
  have o: "cacheOk r s2" "tsparent s2 = tsparent s" "tsinitializer s2 = tsinitializer s"
    "tstext s2 = tstext s" "skipTrivia s2 = skipTrivia s"
    using a b by (simp_all add: shifted_def)
  show ?thesis unfolding shifted_def using hk p e o by blast
qed

lemma shifted_after_wrap:
  assumes a: "shifted r K k s s1" and hk: "handlesKept s1 s2" and sn: "sameNodes s1 s2"
    and ok: "cacheOk r s2"
  shows "shifted r K k s s2"
  using a hk sn ok handlesKept_trans[of s s1 s2]
  by (simp add: shifted_def sameNodes_def)

lemma cacheOk_handles:
  "nodeCache s' = nodeCache s \<Longrightarrow> nextHandle s' = nextHandle s \<Longrightarrow> slot s' = slot s \<Longrightarrow>
   cacheOk r s' = cacheOk r s"
  by (simp add: cacheOk_def list_all_iff split: option.splits)

lemma getChildrenNow_built:
  assumes "slot s h = Some n" and "nodeChildren s n = Inr (tschildren n)"
  shows "getChildrenNow nodeChildren h s = getChildren h s"
  using assms by (simp add: getChildrenNow_def getChildren_def bnd_def compilerNode_def)

lemma offset_children:
  assumes ih: "\<And>c y t. c \<in> set cs \<Longrightarrow> cacheOk r t \<Longrightarrow> slot t y = Some c \<Longrightarrow>
      y < nextHandle t \<Longrightarrow>
      \<exists>t'. offsetPositions nc f k y t = Some (Inr (), t') \<and> shifted r (set (idents c)) k t t'"
    and ok: "cacheOk r s" and d: "distinct (concat (map idents cs))"
    and sl: "map (slot s) hs = map Some cs" and lt: "list_all (\<lambda>y. y < nextHandle s) hs"
  shows "\<exists>s'. forEachF (offsetPositions nc f k) hs s = Some (Inr (), s') \<and>
      shifted r (set (concat (map idents cs))) k s s'"
  using ih ok d sl lt
proof (induction cs arbitrary: hs s)
  case Nil
  then show ?case by (simp add: lift_def ret_def shifted_refl)
next
  case (Cons c cs)
  from Cons.prems(4) obtain y ys where hs: "hs = y # ys" and sy: "slot s y = Some c"
    and sys: "map (slot s) ys = map Some cs"
    by (cases hs) auto
  from Cons.prems(5) hs have ly: "y < nextHandle s" and lys: "list_all (\<lambda>y. y < nextHandle s) ys"
    by simp_all
  from Cons.prems(1)[of c s y] Cons.prems(2) sy ly obtain s1 where
    o1: "offsetPositions nc f k y s = Some (Inr (), s1)" and r1: "shifted r (set (idents c)) k s s1"
    by auto
  have ok1: "cacheOk r s1" and hk1: "handlesKept s s1" using r1 by (simp_all add: shifted_def)
  from Cons.prems(3) have d': "distinct (concat (map idents cs))"
    and disj: "set (idents c) \<inter> set (concat (map idents cs)) = {}" by auto
  have same: "slot s1 y' = slot s y'" if "y' \<in> set ys" for y'
  proof -
    from that lys have "y' < nextHandle s" by (simp add: list_all_iff)
    with hk1 show ?thesis by (simp add: handlesKept_def)
  qed
  then have "map (slot s1) ys = map (slot s) ys" by simp
  with sys have sys1: "map (slot s1) ys = map Some cs" by simp
  have lys1: "list_all (\<lambda>y. y < nextHandle s1) ys"
    using lys hk1 by (auto simp: list_all_iff handlesKept_def)
  have ih': "\<And>c' y t. c' \<in> set cs \<Longrightarrow> cacheOk r t \<Longrightarrow> slot t y = Some c' \<Longrightarrow>
      y < nextHandle t \<Longrightarrow>
      \<exists>t'. offsetPositions nc f k y t = Some (Inr (), t') \<and> shifted r (set (idents c')) k t t'"
    using Cons.prems(1) by simp
  from Cons.IH[OF ih' ok1 d' sys1 lys1] obtain s2 where
    l2: "forEachF (offsetPositions nc f k) ys s1 = Some (Inr (), s2)"
    and r2: "shifted r (set (concat (map idents cs))) k s1 s2" by blast
  have "forEachF (offsetPositions nc f k) hs s = Some (Inr (), s2)"
    using hs o1 l2 by (simp add: bndF_def)
  moreover have "shifted r (set (concat (map idents (c # cs)))) k s s2"
    using shifted_trans[OF r1 r2 disj] by simp
  ultimately show ?case by blast
qed

lemma offset_step:
  assumes ih: "\<And>c y t. c \<in> set (tschildren n) \<Longrightarrow> cacheOk r t \<Longrightarrow> slot t y = Some c \<Longrightarrow>
      y < nextHandle t \<Longrightarrow>
      \<exists>t'. offsetPositions nc f k y t = Some (Inr (), t') \<and> shifted r (set (idents c)) k t t'"
    and ok: "cacheOk r s" and n: "n \<in> set (subtrees r)" and l: "slot s h = Some n"
    and lt: "h < nextHandle s"
    and built: "\<And>t. nc t n = Inr (tschildren n)"
  shows "\<exists>s'. offsetPositions nc (Suc f) k h s = Some (Inr (), s') \<and>
      shifted r (set (idents n)) k s s'"
proof -
  define sa where "sa = s\<lparr>tspos := (tspos s)(ident n := tspos s (ident n) + k)\<rparr>"
  define sb where "sb = sa\<lparr>tsend := (tsend sa)(ident n := tsend sa (ident n) + k)\<rparr>"
  have dn: "distinct (idents n)" using distinct_subtree[OF cacheOk_distinct[OF ok] n] .
  have p: "addPos h k s = (Inr (), sa)"
    using l by (simp add: addPos_def bnd_def compilerNode_def modify_def sa_def)
  have e: "addEnd h k sa = (Inr (), sb)"
    using l by (simp add: addEnd_def bnd_def compilerNode_def modify_def sa_def sb_def)
  have "cacheOk r sb = cacheOk r s" by (rule cacheOk_handles) (simp_all add: sa_def sb_def)
  with ok have okb: "cacheOk r sb" by simp
  have lb: "slot sb h = Some n" using l by (simp add: sa_def sb_def)
  have r0: "shifted r {ident n} k s sb"
    using okb by (simp add: shifted_def handlesKept_def sa_def sb_def)
  obtain hs s1 where g0: "getChildren h sb = (Inr hs, s1)" and ok1: "cacheOk r s1"
    and hk: "handlesKept sb s1" and sn: "sameNodes sb s1"
    and es: "map (\<lambda>c. nodeCache s1 (ident c)) (tschildren n) = map Some hs"
    using getChildren_tree[OF okb n lb] by blast
  have g: "getChildrenNow nc h sb = (Inr hs, s1)"
    using getChildrenNow_built[of sb h n nc, OF lb built[of sb]] g0 by simp
  have sub: "set (tschildren n) \<subseteq> set (subtrees r)" using children_in_tree[OF n] by blast
  have len: "length hs = length (tschildren n)" using es by (metis length_map)
  have each: "slot s1 (hs ! i) = Some (tschildren n ! i) \<and> hs ! i < nextHandle s1"
    if "i < length hs" for i
  proof -
    from that len have i: "i < length (tschildren n)" by simp
    from es have "map (\<lambda>c. nodeCache s1 (ident c)) (tschildren n) ! i = map Some hs ! i" by simp
    with that i have c: "nodeCache s1 (ident (tschildren n ! i)) = Some (hs ! i)" by simp
    have "tschildren n ! i \<in> set (subtrees r)" using sub i by auto
    from cacheOkD[OF ok1 this c] show ?thesis by simp
  qed
  have sl: "map (slot s1) hs = map Some (tschildren n)"
    using each len by (intro nth_equalityI) simp_all
  have lts: "list_all (\<lambda>y. y < nextHandle s1) hs"
    using each by (auto simp: list_all_iff in_set_conv_nth)
  from offset_children[OF ih ok1 children_distinct[OF dn] sl lts] obtain s2 where
    lo: "forEachF (offsetPositions nc f k) hs s1 = Some (Inr (), s2)"
    and r2: "shifted r (set (concat (map idents (tschildren n)))) k s1 s2" by blast
  have r1: "shifted r {ident n} k s s1"
    using shifted_after_wrap[OF r0 hk sn ok1] .
  have disj: "{ident n} \<inter> set (concat (map idents (tschildren n))) = {}"
    using ident_not_in_children[OF dn] by simp
  have "shifted r ({ident n} \<union> set (concat (map idents (tschildren n)))) k s s2"
    using shifted_trans[OF r1 r2 disj] .
  then have r3: "shifted r (set (idents n)) k s s2" by (simp only: idents_node insert_is_Un[symmetric])
  have run: "offsetPositions nc (Suc f) k h s = Some (Inr (), s2)"
    by (simp only: offsetPositions.simps bndF_def lift_def p e g lo option.case prod.case sum.case)
  show ?thesis using run r3 by blast
qed

lemma offset_tree:
  "cacheOk r s \<Longrightarrow> n \<in> set (subtrees r) \<Longrightarrow> slot s h = Some n \<Longrightarrow> h < nextHandle s \<Longrightarrow>
   height n \<le> fuel \<Longrightarrow> (\<And>m t. m \<in> set (subtrees n) \<Longrightarrow> nc t m = Inr (tschildren m)) \<Longrightarrow>
   \<exists>s'. offsetPositions nc fuel k h s = Some (Inr (), s') \<and> shifted r (set (idents n)) k s s'"
proof (induction fuel arbitrary: n h s)
  case 0
  then show ?case by (cases n) simp
next
  case (Suc f)
  have ih: "\<And>c y t. c \<in> set (tschildren n) \<Longrightarrow> cacheOk r t \<Longrightarrow> slot t y = Some c \<Longrightarrow>
      y < nextHandle t \<Longrightarrow>
      \<exists>t'. offsetPositions nc f k y t = Some (Inr (), t') \<and> shifted r (set (idents c)) k t t'"
  proof -
    fix c y t assume c: "c \<in> set (tschildren n)" and t: "cacheOk r t"
      and y: "slot t y = Some c" and yl: "y < nextHandle t"
    have "height c \<le> f" using height_child[OF c] Suc.prems(5) by simp
    moreover have "nc t' m = Inr (tschildren m)" if "m \<in> set (subtrees c)" for m t'
    proof -
      have "c \<in> set (subtrees n)" using child_subtree[OF c] .
      from subtrees_trans[OF that this] Suc.prems(6) show ?thesis by blast
    qed
    ultimately
    show "\<exists>t'. offsetPositions nc f k y t = Some (Inr (), t') \<and> shifted r (set (idents c)) k t t'"
      using Suc.IH[OF t children_in_tree[OF Suc.prems(2) c] y yl] by blast
  qed
  have built: "\<And>t. nc t n = Inr (tschildren n)" using Suc.prems(6) self_subtree by blast
  from offset_step[OF ih Suc.prems(1,2,3,4) built] show ?case .
qed

text \<open>
  On a live handle of a tree node whose subtree has all its child lists built (the
  compiler answers with the list of the parse, whatever the positions are),
  \<^verbatim>\<open>offsetPositions(k)\<close> returns when the fuel covers the height of the node. Afterwards
  \<^verbatim>\<open>pos\<close> and \<^verbatim>\<open>end\<close> of every node of the subtree are greater by exactly \<open>k\<close>, those of
  every other node are as before, the other fields of the nodes are as before, and every
  handle that existed wraps the node it wrapped.
\<close>

lemma offsetPositions_built_subtree:
  assumes "cacheOk r s" and "n \<in> set (subtrees r)" and "slot s h = Some n"
    and "h < nextHandle s" and "height n \<le> fuel"
    and "\<And>m t. m \<in> set (subtrees n) \<Longrightarrow> nodeChildren t m = Inr (tschildren m)"
  shows "\<exists>s'. offsetPositions nodeChildren fuel k h s = Some (Inr (), s') \<and>
      (\<forall>i. tspos s' i = (if i \<in> set (idents n) then tspos s i + k else tspos s i)) \<and>
      (\<forall>i. tsend s' i = (if i \<in> set (idents n) then tsend s i + k else tsend s i)) \<and>
      tsparent s' = tsparent s \<and> tsinitializer s' = tsinitializer s \<and>
      tstext s' = tstext s \<and> skipTrivia s' = skipTrivia s \<and>
      (\<forall>h' < nextHandle s. slot s' h' = slot s h')"
proof -
  from offset_tree[of r s n h fuel nodeChildren k, OF assms] obtain s' where
    run: "offsetPositions nodeChildren fuel k h s = Some (Inr (), s')" and
    sh: "shifted r (set (idents n)) k s s'" by blast
  from sh have "\<forall>h' < nextHandle s. slot s' h' = slot s h'"
    by (simp add: shifted_def handlesKept_def)
  with run sh show ?thesis unfolding shifted_def by blast
qed

lemma offsetPositions_built_example:
  "\<exists>s'. offsetPositions (\<lambda>t m. Inr (tschildren m)) 2 5 1 exSession = Some (Inr (), s') \<and>
     tspos s' 7 = 14 \<and> tsend s' 7 = 23 \<and> tspos s' 10 = 20 \<and> tsend s' 10 = 22 \<and>
     tspos s' 11 = 22 \<and> tsend s' 11 = 23 \<and>
     tspos s' 6 = 9 \<and> tsend s' 6 = 18 \<and> tspos s' 12 = 18 \<and>
     slot s' 1 = Some exProp"
proof -
  have n: "exProp \<in> set (subtrees exFile)" by (simp add: exTree)
  have l: "slot exSession 1 = Some exProp" and lt: "1 < nextHandle exSession"
    by (simp_all add: exSession_def)
  have h: "height exProp \<le> 2" by (simp add: exTree)
  from offsetPositions_built_subtree[OF exSession_ok n l lt h, of "\<lambda>t m. Inr (tschildren m)" 5]
  obtain s' where
    run: "offsetPositions (\<lambda>t m. Inr (tschildren m)) 2 5 1 exSession = Some (Inr (), s')" and
    p: "\<forall>i. tspos s' i = (if i \<in> set (idents exProp) then tspos exSession i + 5 else tspos exSession i)" and
    e: "\<forall>i. tsend s' i = (if i \<in> set (idents exProp) then tsend exSession i + 5 else tsend exSession i)" and
    k: "\<forall>h' < nextHandle exSession. slot s' h' = slot exSession h'"
    by auto
  have "tspos s' 7 = 14 \<and> tsend s' 7 = 23 \<and> tspos s' 10 = 20 \<and> tsend s' 10 = 22 \<and>
     tspos s' 11 = 22 \<and> tsend s' 11 = 23 \<and>
     tspos s' 6 = 9 \<and> tsend s' 6 = 18 \<and> tspos s' 12 = 18"
    by (simp add: p e exTree exSession_def)
  moreover have "slot s' 1 = Some exProp" using k l lt by simp
  ultimately show ?thesis using run by blast
qed

lemma offsetPositions_live:
  assumes "slot s h = Some n"
  shows "offsetPositions nodeChildren (Suc fuel) k h s =
     (case nodeChildren
             (s\<lparr>tspos := (tspos s)(ident n := tspos s (ident n) + k),
                tsend := (tsend s)(ident n := tsend s (ident n) + k)\<rparr>) n of
        Inl e \<Rightarrow>
          Some (Inl e, s\<lparr>tspos := (tspos s)(ident n := tspos s (ident n) + k),
                        tsend := (tsend s)(ident n := tsend s (ident n) + k)\<rparr>)
      | Inr cs \<Rightarrow>
          bndF (lift (mapA (wrap h) cs)) (forEachF (offsetPositions nodeChildren fuel k))
            (s\<lparr>tspos := (tspos s)(ident n := tspos s (ident n) + k),
               tsend := (tsend s)(ident n := tsend s (ident n) + k)\<rparr>))"
proof -
  define sb where "sb = s\<lparr>tspos := (tspos s)(ident n := tspos s (ident n) + k),
                        tsend := (tsend s)(ident n := tsend s (ident n) + k)\<rparr>"
  have p: "addPos h k s = (Inr (), s\<lparr>tspos := (tspos s)(ident n := tspos s (ident n) + k)\<rparr>)"
    using assms by (simp add: addPos_def bnd_def compilerNode_def modify_def)
  have e: "addEnd h k (s\<lparr>tspos := (tspos s)(ident n := tspos s (ident n) + k)\<rparr>) = (Inr (), sb)"
    using assms by (simp add: addEnd_def bnd_def compilerNode_def modify_def sb_def)
  have lb: "slot sb h = Some n" using assms by (simp add: sb_def)
  have g: "getChildrenNow nodeChildren h sb =
      (case nodeChildren sb n of Inl e \<Rightarrow> (Inl e, sb) | Inr cs \<Rightarrow> mapA (wrap h) cs sb)"
    using lb by (simp add: getChildrenNow_def bnd_def compilerNode_def split: sum.splits)
  have "offsetPositions nodeChildren (Suc fuel) k h s =
      bndF (lift (getChildrenNow nodeChildren h)) (forEachF (offsetPositions nodeChildren fuel k)) sb"
    by (simp add: bndF_def lift_def p e)
  also have "\<dots> = (case nodeChildren sb n of
        Inl e \<Rightarrow> Some (Inl e, sb)
      | Inr cs \<Rightarrow> bndF (lift (mapA (wrap h) cs)) (forEachF (offsetPositions nodeChildren fuel k)) sb)"
    by (simp add: bndF_def lift_def g split: sum.splits)
  finally show ?thesis unfolding sb_def .
qed

text \<open>
  C3: \<^verbatim>\<open>offsetPositions(k)\<close> does not shift the subtree of a node whose child list the
  compiler has not built. On the property declaration of the example (handle 1, range
  9 to 18), for every answer of the compiler: the method writes \<^verbatim>\<open>pos\<close> and \<^verbatim>\<open>end\<close> of the
  property first, and the compiler is asked for the children in the session where the
  range of the property is already 9 + k to 18 + k; an error of the compiler is the
  outcome, and then no descendant has been shifted. With the compiler of the example and
  the offset 5 the range asked for ends at 23, beyond the text of 20 characters: the call
  fails, the property stands at 14 to 23, and its name, equals token, initializer and
  semicolon stand where they stood.
\<close>

theorem offsetPositions_unbuilt_children:
  "offsetPositions nodeChildren (Suc fuel) k 1 exSession =
     (case nodeChildren
             (exSession\<lparr>tspos := (tspos exSession)(7 := 9 + k),
                        tsend := (tsend exSession)(7 := 18 + k)\<rparr>) exProp of
        Inl e \<Rightarrow>
          Some (Inl e, exSession\<lparr>tspos := (tspos exSession)(7 := 9 + k),
                                tsend := (tsend exSession)(7 := 18 + k)\<rparr>)
      | Inr cs \<Rightarrow>
          bndF (lift (mapA (wrap 1) cs)) (forEachF (offsetPositions nodeChildren fuel k))
            (exSession\<lparr>tspos := (tspos exSession)(7 := 9 + k),
                       tsend := (tsend exSession)(7 := 18 + k)\<rparr>))
   \<and> (\<exists>s'. offsetPositions exNodeChildren (Suc fuel) 5 1 exSession =
          Some (Inl (CompilerFailure ''Debug Failure''), s') \<and>
        tspos s' 7 = 14 \<and> tsend s' 7 = 23 \<and>
        tspos s' 8 = 9 \<and> tsend s' 8 = 13 \<and> tspos s' 9 = 13 \<and> tsend s' 9 = 15 \<and>
        tspos s' 10 = 15 \<and> tsend s' 10 = 17 \<and> tspos s' 11 = 17 \<and> tsend s' 11 = 18)"
proof
  have l: "slot exSession 1 = Some exProp" by (simp add: exSession_def)
  have v: "ident exProp = 7" "tspos exSession 7 = 9" "tsend exSession 7 = 18"
    by (simp_all add: exProp_def exSession_def)
  show g: "offsetPositions nodeChildren (Suc fuel) k 1 exSession =
     (case nodeChildren
             (exSession\<lparr>tspos := (tspos exSession)(7 := 9 + k),
                        tsend := (tsend exSession)(7 := 18 + k)\<rparr>) exProp of
        Inl e \<Rightarrow>
          Some (Inl e, exSession\<lparr>tspos := (tspos exSession)(7 := 9 + k),
                                tsend := (tsend exSession)(7 := 18 + k)\<rparr>)
      | Inr cs \<Rightarrow>
          bndF (lift (mapA (wrap 1) cs)) (forEachF (offsetPositions nodeChildren fuel k))
            (exSession\<lparr>tspos := (tspos exSession)(7 := 9 + k),
                       tsend := (tsend exSession)(7 := 18 + k)\<rparr>))"
    for nodeChildren k
    using offsetPositions_live[OF l, of nodeChildren fuel k] unfolding v .
  define s' where "s' = exSession\<lparr>tspos := (tspos exSession)(7 := 9 + 5),
                                  tsend := (tsend exSession)(7 := 18 + 5)\<rparr>"
  have f: "exNodeChildren s' exProp = Inl (CompilerFailure ''Debug Failure'')"
    by (simp add: exNodeChildren_def s'_def exProp_def exSession_def exText_def)
  have "offsetPositions exNodeChildren (Suc fuel) 5 1 exSession =
          Some (Inl (CompilerFailure ''Debug Failure''), s')"
    unfolding g[of exNodeChildren 5] s'_def[symmetric] by (simp add: f)
  moreover have "tspos s' 7 = 14 \<and> tsend s' 7 = 23 \<and>
        tspos s' 8 = 9 \<and> tsend s' 8 = 13 \<and> tspos s' 9 = 13 \<and> tsend s' 9 = 15 \<and>
        tspos s' 10 = 15 \<and> tsend s' 10 = 17 \<and> tspos s' 11 = 17 \<and> tsend s' 11 = 18"
    by (simp add: s'_def exSession_def)
  ultimately show "\<exists>s'. offsetPositions exNodeChildren (Suc fuel) 5 1 exSession =
          Some (Inl (CompilerFailure ''Debug Failure''), s') \<and>
        tspos s' 7 = 14 \<and> tsend s' 7 = 23 \<and>
        tspos s' 8 = 9 \<and> tsend s' 8 = 13 \<and> tspos s' 9 = 13 \<and> tsend s' 9 = 15 \<and>
        tspos s' 10 = 15 \<and> tsend s' 10 = 17 \<and> tspos s' 11 = 17 \<and> tsend s' 11 = 18"
    by blast
qed

section \<open>Throwing query forms\<close>

text \<open>
  C9, as the code has it: each \<^verbatim>\<open>OrThrow\<close> form runs its counterpart and, in the session
  the counterpart leaves, returns the node the counterpart returned, or throws an
  \<^verbatim>\<open>InvalidOperationError\<close> when the counterpart returned nothing; an error of the
  counterpart is passed on.
\<close>

theorem orThrow_agrees_with_counterpart:
  "getFirstChildOrThrow c h s =
     (case getFirstChild c h s of
        (Inl e, s') \<Rightarrow> (Inl e, s')
      | (Inr None, s') \<Rightarrow>
          (Inl (InvalidOperationError
             ''Could not find a child that matched the specified condition.''), s')
      | (Inr (Some x), s') \<Rightarrow> (Inr x, s')) \<and>
   getLastChildOrThrow c h s =
     (case getLastChild c h s of
        (Inl e, s') \<Rightarrow> (Inl e, s')
      | (Inr None, s') \<Rightarrow>
          (Inl (InvalidOperationError
             ''Could not find a child that matched the specified condition.''), s')
      | (Inr (Some x), s') \<Rightarrow> (Inr x, s')) \<and>
   getFirstDescendantOrThrow f c h s =
     (case getFirstDescendant f c h s of
        None \<Rightarrow> None
      | Some (Inl e, s') \<Rightarrow> Some (Inl e, s')
      | Some (Inr None, s') \<Rightarrow>
          Some (Inl (InvalidOperationError
             ''Could not find a descendant that matched the specified condition.''), s')
      | Some (Inr (Some x), s') \<Rightarrow> Some (Inr x, s')) \<and>
   getPreviousSiblingOrThrow c h s =
     (case getPreviousSibling c h s of
        (Inl e, s') \<Rightarrow> (Inl e, s')
      | (Inr None, s') \<Rightarrow>
          (Inl (InvalidOperationError ''Could not find the previous sibling.''), s')
      | (Inr (Some x), s') \<Rightarrow> (Inr x, s')) \<and>
   getNextSiblingOrThrow c h s =
     (case getNextSibling c h s of
        (Inl e, s') \<Rightarrow> (Inl e, s')
      | (Inr None, s') \<Rightarrow>
          (Inl (InvalidOperationError ''Could not find the next sibling.''), s')
      | (Inr (Some x), s') \<Rightarrow> (Inr x, s')) \<and>
   getParentOrThrow h s =
     (case getParent h s of
        (Inl e, s') \<Rightarrow> (Inl e, s')
      | (Inr None, s') \<Rightarrow>
          (Inl (InvalidOperationError ''A parent is required to do this operation.''), s')
      | (Inr (Some x), s') \<Rightarrow> (Inr x, s')) \<and>
   getParentSyntaxListOrThrow h s =
     (case getParentSyntaxList h s of
        (Inl e, s') \<Rightarrow> (Inl e, s')
      | (Inr None, s') \<Rightarrow>
          (Inl (InvalidOperationError ''Expected the parent to be a syntax list.''), s')
      | (Inr (Some x), s') \<Rightarrow> (Inr x, s')) \<and>
   getFirstChildByKindOrThrow nm k h s =
     (case getFirstChildByKind k h s of
        (Inl e, s') \<Rightarrow> (Inl e, s')
      | (Inr None, s') \<Rightarrow>
          (Inl (InvalidOperationError (''A child of the kind '' @ nm k @ '' was expected.'')), s')
      | (Inr (Some x), s') \<Rightarrow> (Inr x, s')) \<and>
   getFirstChildIfKindOrThrow nm k h s =
     (case getFirstChildIfKind k h s of
        (Inl e, s') \<Rightarrow> (Inl e, s')
      | (Inr None, s') \<Rightarrow>
          (Inl (InvalidOperationError
             (''A first child of the kind '' @ nm k @ '' was expected.'')), s')
      | (Inr (Some x), s') \<Rightarrow> (Inr x, s')) \<and>
   getLastChildByKindOrThrow nm k h s =
     (case getLastChildByKind k h s of
        (Inl e, s') \<Rightarrow> (Inl e, s')
      | (Inr None, s') \<Rightarrow>
          (Inl (InvalidOperationError (''A child of the kind '' @ nm k @ '' was expected.'')), s')
      | (Inr (Some x), s') \<Rightarrow> (Inr x, s')) \<and>
   getLastChildIfKindOrThrow nm k h s =
     (case getLastChildIfKind k h s of
        (Inl e, s') \<Rightarrow> (Inl e, s')
      | (Inr None, s') \<Rightarrow>
          (Inl (InvalidOperationError
             (''A last child of the kind '' @ nm k @ '' was expected.'')), s')
      | (Inr (Some x), s') \<Rightarrow> (Inr x, s')) \<and>
   getPreviousSiblingIfKindOrThrow nm k h s =
     (case getPreviousSiblingIfKind k h s of
        (Inl e, s') \<Rightarrow> (Inl e, s')
      | (Inr None, s') \<Rightarrow>
          (Inl (InvalidOperationError
             (''A previous sibling of kind '' @ nm k @ '' was expected.'')), s')
      | (Inr (Some x), s') \<Rightarrow> (Inr x, s')) \<and>
   getNextSiblingIfKindOrThrow nm k h s =
     (case getNextSiblingIfKind k h s of
        (Inl e, s') \<Rightarrow> (Inl e, s')
      | (Inr None, s') \<Rightarrow>
          (Inl (InvalidOperationError
             (''A next sibling of kind '' @ nm k @ '' was expected.'')), s')
      | (Inr (Some x), s') \<Rightarrow> (Inr x, s')) \<and>
   getParentIfKindOrThrow nm k h s =
     (case getParentIfKind k h s of
        (Inl e, s') \<Rightarrow> (Inl e, s')
      | (Inr None, s') \<Rightarrow>
          (Inl (InvalidOperationError
             (''A parent with a syntax kind of '' @ nm k
              @ '' is required to do this operation.'')), s')
      | (Inr (Some x), s') \<Rightarrow> (Inr x, s')) \<and>
   getFirstParentByKindOrThrow f nm k h s =
     (case getFirstParentByKind f k h s of
        None \<Rightarrow> None
      | Some (Inl e, s') \<Rightarrow> Some (Inl e, s')
      | Some (Inr None, s') \<Rightarrow>
          Some (Inl (InvalidOperationError
             (''A parent of kind '' @ nm k @ '' is required to do this operation.'')), s')
      | Some (Inr (Some x), s') \<Rightarrow> Some (Inr x, s')) \<and>
   getFirstDescendantByKindOrThrow f nm k h s =
     (case getFirstDescendantByKind f k h s of
        None \<Rightarrow> None
      | Some (Inl e, s') \<Rightarrow> Some (Inl e, s')
      | Some (Inr None, s') \<Rightarrow>
          Some (Inl (InvalidOperationError
             (''A descendant of kind '' @ nm k @ '' is required to do this operation.'')), s')
      | Some (Inr (Some x), s') \<Rightarrow> Some (Inr x, s')) \<and>
   getChildSyntaxListOrThrow g h s =
     (case g h s of
        (Inl e, s') \<Rightarrow> (Inl e, s')
      | (Inr None, s') \<Rightarrow>
          (Inl (InvalidOperationError ''A child syntax list was expected.''), s')
      | (Inr (Some x), s') \<Rightarrow> (Inr x, s'))"
proof (intro conjI)
  show "getFirstChildOrThrow c h s =
     (case getFirstChild c h s of
        (Inl e, s') \<Rightarrow> (Inl e, s')
      | (Inr None, s') \<Rightarrow>
          (Inl (InvalidOperationError
             ''Could not find a child that matched the specified condition.''), s')
      | (Inr (Some x), s') \<Rightarrow> (Inr x, s'))"
    by (simp add: getFirstChildOrThrow_def bnd_def throw_def ret_def
          split: prod.splits sum.splits option.splits)
qed (simp_all add: getLastChildOrThrow_def getFirstDescendantOrThrow_def
       getChildSyntaxListOrThrow_def
       getPreviousSiblingOrThrow_def getNextSiblingOrThrow_def getParentOrThrow_def
       getParentSyntaxListOrThrow_def getFirstChildByKindOrThrow_def
       getFirstChildIfKindOrThrow_def getLastChildByKindOrThrow_def
       getLastChildIfKindOrThrow_def getPreviousSiblingIfKindOrThrow_def
       getNextSiblingIfKindOrThrow_def getParentIfKindOrThrow_def
       getFirstParentByKindOrThrow_def getFirstDescendantByKindOrThrow_def
       bnd_def bndF_def lift_def throw_def ret_def
       split: prod.splits sum.splits option.splits)

theorem orThrow_not_found_counterexample:
  "getFirstChild None 4 exSession = (Inr None, exSession) \<and>
   getFirstChildOrThrow None 4 exSession =
     (Inl (InvalidOperationError
        ''Could not find a child that matched the specified condition.''), exSession) \<and>
   \<not> isNotFound (InvalidOperationError
        ''Could not find a child that matched the specified condition.'') \<and>
   getParent 0 exSession = (Inr None, exSession) \<and>
   getParentOrThrow 0 exSession =
     (Inl (InvalidOperationError ''A parent is required to do this operation.''), exSession) \<and>
   \<not> isNotFound (InvalidOperationError ''A parent is required to do this operation.'')"
proof -
  have a: "getFirstChild None 4 exSession = (Inr None, exSession)"
    by (simp add: getFirstChild_def iterChildren_def act exSession_def exInit_def)
  have b: "getParent 0 exSession = (Inr None, exSession)"
    by (simp add: getParent_def act exSession_def exFile_def)
  show ?thesis
    using a b
    by (simp add: getFirstChildOrThrow_def getParentOrThrow_def bnd_def throw_def isNotFound_def)
qed

section \<open>The node at a position\<close>

subsection \<open>Navigation in a well-formed session\<close>

lemma sessionOkD:
  assumes "sessionOk r sf s" and "n \<in> set (subtrees r)" and "nodeCache s (ident n) = Some h"
  shows "h < nextHandle s" "slot s h = Some n" "sourceFile s h = sf" "slot s sf \<noteq> None"
    "sf < nextHandle s" "cacheOk r s"
  using assms cacheOkD[of r s n h] fileOkD[of r sf s n h] fileOk_live[of r sf s]
  by (simp_all add: sessionOk_def)

lemma iterChildren_tree:
  assumes "sessionOk r sf s" and "n \<in> set (subtrees r)" and "nodeCache s (ident n) = Some h"
  shows "iterChildren h s = (Inr (tschildren n), s)"
proof -
  note d = sessionOkD[OF assms]
  from d(4) obtain fn where "slot s sf = Some fn" by blast
  with d(2,3) show ?thesis by (simp add: iterChildren_def act)
qed

lemma wrap_session:
  assumes ok: "sessionOk r sf s" and c: "c \<in> set (subtrees r)" and f: "sourceFile s h = sf"
  obtains y s' where "wrap h c s = (Inr y, s')" "sessionOk r sf s'" "handlesKept s s'"
    "sameNodes s s'" "nodeCache s' (ident c) = Some y" "slot s' y = Some c"
proof -
  have cok: "cacheOk r s" and fok: "fileOk r sf s" using ok by (simp_all add: sessionOk_def)
  obtain y s' where w: "wrap h c s = (Inr y, s')" and ok': "cacheOk r s'"
    and hk: "handlesKept s s'" and sn: "sameNodes s s'"
    and e: "nodeCache s' (ident c) = Some y"
    and fr: "\<And>k. k \<noteq> ident c \<Longrightarrow> nodeCache s' k = nodeCache s k"
    and sfy: "sourceFile s' y = (if nodeCache s (ident c) = None then sourceFile s h else sourceFile s y)"
    using wrap_tree[OF cok c, of h] by metis
  have live: "sf < nextHandle s" "slot s sf \<noteq> None" using fileOk_live[OF fok] by simp_all
  have "fileOk r sf s'"
    unfolding fileOk_def list_all_iff
  proof (intro conjI ballI)
    show "sf < nextHandle s'" using live hk by (simp add: handlesKept_def)
    show "slot s' sf \<noteq> None" using live hk by (simp add: handlesKept_def)
  next
    fix m assume m: "m \<in> set (subtrees r)"
    show "case nodeCache s' (ident m) of None \<Rightarrow> True | Some h' \<Rightarrow> sourceFile s' h' = sf"
    proof (cases "nodeCache s' (ident m)")
      case None then show ?thesis by simp
    next
      case (Some h')
      show ?thesis
      proof (cases "ident m = ident c")
        case True
        with Some e have hy: "h' = y" by simp
        show ?thesis
        proof (cases "nodeCache s (ident c)")
          case None
          with sfy f hy Some show ?thesis by simp
        next
          case (Some y0)
          with hk e have "y0 = y" by (simp add: handlesKept_def)
          with Some fileOkD[OF fok c] have "sourceFile s y = sf" by simp
          with sfy Some hy \<open>nodeCache s' (ident m) = Some h'\<close> show ?thesis by simp
        qed
      next
        case False
        with fr Some have old: "nodeCache s (ident m) = Some h'" by simp
        from fileOkD[OF fok m old] have 1: "sourceFile s h' = sf" .
        from cacheOkD[OF cok m old] have "h' < nextHandle s" by simp
        with hk have "sourceFile s' h' = sourceFile s h'" by (simp add: handlesKept_def)
        with 1 Some show ?thesis by simp
      qed
    qed
  qed
  with ok' have "sessionOk r sf s'" by (simp add: sessionOk_def)
  moreover have "slot s' y = Some c" using cacheOkD[OF ok' c e] by simp
  ultimately show ?thesis using that w hk sn e by blast
qed

lemma getPos_live: "slot s y = Some c \<Longrightarrow> getPos y s = (Inr (tspos s (ident c)), s)"
  by (simp add: getPos_def act)

lemma getEnd_live: "slot s y = Some c \<Longrightarrow> getEnd y s = (Inr (tsend s (ident c)), s)"
  by (simp add: getEnd_def act)

lemma getKind_live: "slot s y = Some c \<Longrightarrow> getKind y s = (Inr (kind c), s)"
  by (simp add: getKind_def act)

lemma inRange_live: "slot s y = Some c \<Longrightarrow> inRange p y s = (Inr (inside s p c), s)"
  by (simp add: inRange_def getPos_live getEnd_live bnd_def ret_def inside_def)

lemma inside_sameNodes: "sameNodes s s' \<Longrightarrow> inside s' p c = inside s p c"
  by (simp add: sameNodes_def inside_def)

lemma firstWrapped_inRange:
  assumes "sessionOk r sf s" and "set cs \<subseteq> set (subtrees r)" and "sourceFile s h = sf"
    and "h < nextHandle s"
  shows "\<exists>s'. sessionOk r sf s' \<and> handlesKept s s' \<and> sameNodes s s' \<and>
     (case find (inside s p) cs of
        None \<Rightarrow> firstWrapped h (Some (inRange p)) cs s = (Inr None, s')
      | Some c \<Rightarrow> \<exists>y. nodeCache s' (ident c) = Some y \<and> slot s' y = Some c \<and>
          firstWrapped h (Some (inRange p)) cs s = (Inr (Some y), s'))"
  using assms
proof (induction cs arbitrary: s)
  case Nil
  then show ?case by (auto simp: ret_def handlesKept_refl sameNodes_refl)
next
  case (Cons c cs)
  from Cons.prems(2) have c: "c \<in> set (subtrees r)" and cs: "set cs \<subseteq> set (subtrees r)" by auto
  obtain y s1 where w: "wrap h c s = (Inr y, s1)" and ok1: "sessionOk r sf s1"
    and hk1: "handlesKept s s1" and sn1: "sameNodes s s1"
    and e1: "nodeCache s1 (ident c) = Some y" and l1: "slot s1 y = Some c"
    using wrap_session[OF Cons.prems(1) c Cons.prems(3)] by metis
  have ir: "inRange p y s1 = (Inr (inside s p c), s1)"
    using inRange_live[OF l1] inside_sameNodes[OF sn1] by simp
  show ?case
  proof (cases "inside s p c")
    case True
    have "firstWrapped h (Some (inRange p)) (c # cs) s = (Inr (Some y), s1)"
      using w ir True by (simp add: bnd_def holds_def ret_def)
    with True ok1 hk1 sn1 e1 l1 show ?thesis by auto
  next
    case False
    have f1: "sourceFile s1 h = sf" and h1: "h < nextHandle s1"
      using hk1 Cons.prems(3,4) by (auto simp: handlesKept_def)
    from Cons.IH[OF ok1 cs f1 h1] obtain s2 where
      ok2: "sessionOk r sf s2" and hk2: "handlesKept s1 s2" and sn2: "sameNodes s1 s2" and
      r2: "(case find (inside s1 p) cs of
        None \<Rightarrow> firstWrapped h (Some (inRange p)) cs s1 = (Inr None, s2)
      | Some c \<Rightarrow> \<exists>y. nodeCache s2 (ident c) = Some y \<and> slot s2 y = Some c \<and>
          firstWrapped h (Some (inRange p)) cs s1 = (Inr (Some y), s2))"
      by blast
    have "inside s1 p = inside s p"
      by (rule ext) (simp add: inside_sameNodes[OF sn1])
    then have eqf: "find (inside s1 p) cs = find (inside s p) cs" by simp
    have step: "firstWrapped h (Some (inRange p)) (c # cs) s =
        firstWrapped h (Some (inRange p)) cs s1"
      using w ir False by (simp add: bnd_def holds_def)
    have "(case find (inside s p) (c # cs) of
        None \<Rightarrow> firstWrapped h (Some (inRange p)) (c # cs) s = (Inr None, s2)
      | Some c' \<Rightarrow> \<exists>y. nodeCache s2 (ident c') = Some y \<and> slot s2 y = Some c' \<and>
          firstWrapped h (Some (inRange p)) (c # cs) s = (Inr (Some y), s2))"
      unfolding step using r2 False by (simp add: eqf)
    with ok2 handlesKept_trans[OF hk1 hk2] sameNodes_trans[OF sn1 sn2] show ?thesis by blast
  qed
qed

lemma getChildAtPos_tree:
  assumes ok: "sessionOk r sf s" and n: "n \<in> set (subtrees r)"
    and e: "nodeCache s (ident n) = Some h"
  shows "\<exists>s'. sessionOk r sf s' \<and> handlesKept s s' \<and> sameNodes s s' \<and>
     (case childAt s p n of
        None \<Rightarrow> getChildAtPos h p s = (Inr None, s')
      | Some c \<Rightarrow> \<exists>y. nodeCache s' (ident c) = Some y \<and> slot s' y = Some c \<and>
          getChildAtPos h p s = (Inr (Some y), s'))"
proof (cases "inside s p n")
  case False
  have "getChildAtPos h p s = (Inr None, s)"
    using False sessionOkD(2)[OF ok n e]
    by (auto simp: getChildAtPos_def getPos_live getEnd_live bnd_def ret_def inside_def)
  with False ok show ?thesis
    by (auto simp: childAt_def handlesKept_refl sameNodes_refl)
next
  case True
  note d = sessionOkD[OF ok n e]
  have sub: "set (tschildren n) \<subseteq> set (subtrees r)" using children_in_tree[OF n] by blast
  have run: "getChildAtPos h p s = firstWrapped h (Some (inRange p)) (tschildren n) s"
    using True d(2) iterChildren_tree[OF ok n e]
    by (simp add: getChildAtPos_def getPos_live getEnd_live bnd_def ret_def inside_def)
  show ?thesis
    unfolding childAt_def run using firstWrapped_inRange[OF ok sub d(3) d(1), of p] True
    by simp
qed

subsection \<open>Narrowing on the parse tree\<close>

lemma firstIn_find:
  "firstIn s p cs =
     (case find (inside s p) cs of
        None \<Rightarrow> None
      | Some c \<Rightarrow> (case descendFrom s p c of None \<Rightarrow> Some c | Some m \<Rightarrow> Some m))"
  by (induction cs) auto

lemma descendFrom_childAt:
  "descendFrom s p n =
     (case childAt s p n of
        None \<Rightarrow> None
      | Some c \<Rightarrow> (case descendFrom s p c of None \<Rightarrow> Some c | Some m \<Rightarrow> Some m))"
  by (cases n) (simp add: childAt_def firstIn_find)

lemma descendFrom_sameNodes:
  assumes a: "sameNodes s s'"
  shows "descendFrom s' p n = descendFrom s p n"
proof (induction n)
  case (TsNode i k cs)
  have "firstIn s' p cs = firstIn s p cs"
    using TsNode
  proof (induction cs)
    case Nil show ?case by simp
  next
    case (Cons c cs)
    have "descendFrom s' p c = descendFrom s p c" using Cons.prems by simp
    moreover have "firstIn s' p cs = firstIn s p cs" using Cons by simp
    ultimately show ?case by (simp add: inside_sameNodes[OF a])
  qed
  then show ?case by (simp add: inside_sameNodes[OF a])
qed

lemma childAt_child: "childAt s p n = Some c \<Longrightarrow> c \<in> set (tschildren n) \<and> inside s p c \<and> inside s p n"
  by (auto simp: childAt_def find_Some_iff split: if_splits)

lemma descendFrom_sound:
  "descendFrom s p n = Some m \<Longrightarrow>
     m \<in> set (concat (map subtrees (tschildren n))) \<and> inside s p m \<and> childAt s p m = None"
proof (induction n arbitrary: m rule: measure_induct_rule[where f = height])
  case (less n)
  from less.prems obtain c where c: "childAt s p n = Some c"
    by (auto simp: descendFrom_childAt[of s p n] split: option.splits)
  note cc = childAt_child[OF c]
  show ?case
  proof (cases "descendFrom s p c")
    case None
    with less.prems c have mc: "m = c" by (simp add: descendFrom_childAt[of s p n])
    from None have "childAt s p c = None"
      by (auto simp: descendFrom_childAt[of s p c] split: option.splits)
    with mc cc show ?thesis using self_subtree by auto
  next
    case (Some m')
    with less.prems c have mm: "m' = m" by (simp add: descendFrom_childAt[of s p n])
    from less.IH[OF height_child Some[unfolded mm]] cc
    have "m \<in> set (concat (map subtrees (tschildren c)))" "inside s p m" "childAt s p m = None"
      by simp_all
    moreover have "set (concat (map subtrees (tschildren c))) \<subseteq> set (subtrees c)"
      by (cases c) auto
    ultimately show ?thesis using cc by auto
  qed
qed

lemma descendFrom_None: "descendFrom s p n = None \<longleftrightarrow> childAt s p n = None"
  by (auto simp: descendFrom_childAt[of s p n] split: option.splits)

text \<open>In a tree with well-formed ranges the nodes that contain an offset form one path.\<close>

lemma rangesOk_child:
  "rangesOk s n \<Longrightarrow> c \<in> set (tschildren n) \<Longrightarrow>
   rangesOk s c \<and> tspos s (ident n) \<le> tspos s (ident c) \<and> tsend s (ident c) \<le> tsend s (ident n)"
  by (cases n) (auto simp: list_all_iff)

lemma rangesOk_subtree:
  "rangesOk s n \<Longrightarrow> d \<in> set (subtrees n) \<Longrightarrow>
   rangesOk s d \<and> tspos s (ident n) \<le> tspos s (ident d) \<and> tsend s (ident d) \<le> tsend s (ident n)"
proof (induction n)
  case (TsNode i k cs)
  show ?case
  proof (cases "d = TsNode i k cs")
    case True
    with TsNode.prems show ?thesis by simp
  next
    case False
    with TsNode.prems obtain c where c: "c \<in> set cs" "d \<in> set (subtrees c)" by auto
    from rangesOk_child[OF TsNode.prems(1), of c] c(1)
    have rc: "rangesOk s c" "tspos s i \<le> tspos s (ident c)" "tsend s (ident c) \<le> tsend s i"
      by simp_all
    from TsNode.IH[OF c(1) rc(1) c(2)] rc show ?thesis by auto
  qed
qed

lemma find_unique_inside:
  assumes "sorted_wrt (\<lambda>a b. tsend s (ident a) \<le> tspos s (ident b)) cs"
    and "c \<in> set cs" and "inside s p c"
  shows "find (inside s p) cs = Some c"
  using assms
proof (induction cs)
  case Nil then show ?case by simp
next
  case (Cons a cs)
  show ?case
  proof (cases "a = c")
    case True
    with Cons.prems(3) show ?thesis by simp
  next
    case False
    with Cons.prems(2) have cin: "c \<in> set cs" by simp
    from Cons.prems(1) cin have "tsend s (ident a) \<le> tspos s (ident c)" by simp
    with Cons.prems(3) have "\<not> inside s p a" by (simp add: inside_def)
    moreover from Cons.prems(1) have "sorted_wrt (\<lambda>a b. tsend s (ident a) \<le> tspos s (ident b)) cs"
      by simp
    ultimately show ?thesis using Cons.IH cin Cons.prems(3) by simp
  qed
qed

lemma descendFrom_deepest:
  "rangesOk s n \<Longrightarrow> d \<in> set (concat (map subtrees (tschildren n))) \<Longrightarrow> inside s p d \<Longrightarrow>
   \<exists>m. descendFrom s p n = Some m \<and> m \<in> set (subtrees d)"
proof (induction n arbitrary: d rule: measure_induct_rule[where f = height])
  case (less n)
  from less.prems(2) obtain c where c: "c \<in> set (tschildren n)" and dc: "d \<in> set (subtrees c)"
    by auto
  note rc = rangesOk_child[OF less.prems(1) c]
  from rangesOk_subtree[OF conjunct1[OF rc] dc] less.prems(3)
  have ic: "inside s p c" by (auto simp: inside_def)
  with rc have "inside s p n" by (auto simp: inside_def)
  moreover have "sorted_wrt (\<lambda>a b. tsend s (ident a) \<le> tspos s (ident b)) (tschildren n)"
    using less.prems(1) by (cases n) simp
  ultimately have ca: "childAt s p n = Some c"
    using find_unique_inside[OF _ c ic] by (simp add: childAt_def)
  show ?case
  proof (cases "d = c")
    case True
    show ?thesis
    proof (cases "descendFrom s p c")
      case None
      with ca True show ?thesis
        using self_subtree by (simp add: descendFrom_childAt[of s p n])
    next
      case (Some m)
      from descendFrom_sound[OF Some] have "m \<in> set (concat (map subtrees (tschildren c)))"
        by simp
      moreover have "set (concat (map subtrees (tschildren c))) \<subseteq> set (subtrees c)"
        by (cases c) auto
      ultimately show ?thesis using Some ca True by (auto simp: descendFrom_childAt[of s p n])
    qed
  next
    case False
    with dc have "d \<in> set (concat (map subtrees (tschildren c)))" by (cases c) auto
    from less.IH[OF height_child[OF c] conjunct1[OF rc] this less.prems(3)]
    obtain m where "descendFrom s p c = Some m" "m \<in> set (subtrees d)" by blast
    with ca show ?thesis by (simp add: descendFrom_childAt[of s p n])
  qed
qed

subsection \<open>The loop of getDescendantAtPos\<close>

lemma narrow_tree:
  "sessionOk r sf s \<Longrightarrow> m \<in> set (subtrees r) \<Longrightarrow> nodeCache s (ident m) = Some x \<Longrightarrow>
   (node = None \<and> x = h) \<or> node = Some x \<Longrightarrow> height m \<le> fuel \<Longrightarrow>
   \<exists>s'. sessionOk r sf s' \<and> handlesKept s s' \<and> sameNodes s s' \<and>
     (case descendFrom s p m of
        None \<Rightarrow> narrow fuel node h p s = Some (Inr node, s')
      | Some d \<Rightarrow> \<exists>y. nodeCache s' (ident d) = Some y \<and> slot s' y = Some d \<and>
          narrow fuel node h p s = Some (Inr (Some y), s'))"
proof (induction fuel arbitrary: m x node s)
  case 0
  then show ?case by (cases m) simp
next
  case (Suc f)
  have cur: "(case node of None \<Rightarrow> h | Some x \<Rightarrow> x) = x" using Suc.prems(4) by auto
  from getChildAtPos_tree[OF Suc.prems(1,2,3), of p] obtain s1 where
    ok1: "sessionOk r sf s1" and hk1: "handlesKept s s1" and sn1: "sameNodes s s1" and
    r1: "(case childAt s p m of
        None \<Rightarrow> getChildAtPos x p s = (Inr None, s1)
      | Some c \<Rightarrow> \<exists>y. nodeCache s1 (ident c) = Some y \<and> slot s1 y = Some c \<and>
          getChildAtPos x p s = (Inr (Some y), s1))"
    by blast
  show ?case
  proof (cases "childAt s p m")
    case None
    with r1 have g: "getChildAtPos x p s = (Inr None, s1)" by simp
    have run: "narrow (Suc f) node h p s = Some (Inr node, s1)"
      by (simp add: cur bndF_def lift_def g ret_def)
    from None have "descendFrom s p m = None" by (simp add: descendFrom_None)
    with run ok1 hk1 sn1 show ?thesis by auto
  next
    case (Some c)
    with r1 obtain y where ey: "nodeCache s1 (ident c) = Some y" and ly: "slot s1 y = Some c"
      and g: "getChildAtPos x p s = (Inr (Some y), s1)" by auto
    have run: "narrow (Suc f) node h p s = narrow f (Some y) h p s1"
      by (simp add: cur bndF_def lift_def g)
    note cc = childAt_child[OF Some]
    have cin: "c \<in> set (subtrees r)" using children_in_tree[OF Suc.prems(2)] cc by simp
    have hc: "height c \<le> f" using height_child[of c m] cc Suc.prems(5) by simp
    from Suc.IH[OF ok1 cin ey _ hc, of "Some y"] obtain s2 where
      ok2: "sessionOk r sf s2" and hk2: "handlesKept s1 s2" and sn2: "sameNodes s1 s2" and
      r2: "(case descendFrom s1 p c of
        None \<Rightarrow> narrow f (Some y) h p s1 = Some (Inr (Some y), s2)
      | Some d \<Rightarrow> \<exists>y'. nodeCache s2 (ident d) = Some y' \<and> slot s2 y' = Some d \<and>
          narrow f (Some y) h p s1 = Some (Inr (Some y'), s2))"
      by auto
    have dc: "descendFrom s1 p c = descendFrom s p c" by (rule descendFrom_sameNodes[OF sn1])
    have hk: "handlesKept s s2" using handlesKept_trans[OF hk1 hk2] .
    have sn: "sameNodes s s2" using sameNodes_trans[OF sn1 sn2] .
    show ?thesis
    proof (cases "descendFrom s p c")
      case None
      with r2 dc have n2: "narrow f (Some y) h p s1 = Some (Inr (Some y), s2)" by simp
      have ey2: "nodeCache s2 (ident c) = Some y" using ey hk2 by (simp add: handlesKept_def)
      have ly2: "slot s2 y = Some c" using sessionOkD(2)[OF ok2 cin ey2] .
      have "descendFrom s p m = Some c"
        using Some None by (simp add: descendFrom_childAt[of s p m])
      with n2 ey2 ly2 run ok2 hk sn show ?thesis by auto
    next
      case (Some d)
      with r2 dc obtain y' where "nodeCache s2 (ident d) = Some y'" "slot s2 y' = Some d"
        "narrow f (Some y) h p s1 = Some (Inr (Some y'), s2)" by auto
      moreover have "descendFrom s p m = Some d"
        using \<open>childAt s p m = Some c\<close> Some by (simp add: descendFrom_childAt[of s p m])
      ultimately show ?thesis using run ok2 hk sn by auto
    qed
  qed
qed

text \<open>
  C7: in a well-formed session, for the cached handle of a tree node, \<^verbatim>\<open>getChildAtPos(p)\<close>
  returns the handle of the first direct child whose half-open range contains \<open>p\<close> when
  \<open>p\<close> lies in the node's own range, and nothing otherwise. \<^verbatim>\<open>getDescendantAtPos(p)\<close>
  returns, when the fuel covers the height, the handle of the node that repeated
  narrowing ends in, and nothing exactly when \<^verbatim>\<open>getChildAtPos(p)\<close> gives nothing. That
  node lies below the handle's node, contains \<open>p\<close>, and has no child that contains \<open>p\<close>;
  when the ranges of the tree are well-formed it lies in the subtree of every node below
  the handle's node that contains \<open>p\<close>: it is the deepest one.
\<close>

theorem position_queries_narrow:
  assumes "sessionOk r sf s" and "n \<in> set (subtrees r)" and "nodeCache s (ident n) = Some h"
    and "height n \<le> fuel"
  shows "(\<exists>s'. case (if inside s p n then find (inside s p) (tschildren n) else None) of
            None \<Rightarrow> getChildAtPos h p s = (Inr None, s')
          | Some c \<Rightarrow> \<exists>y. nodeCache s' (ident c) = Some y \<and> slot s' y = Some c \<and>
              getChildAtPos h p s = (Inr (Some y), s'))
       \<and> (\<exists>s'. case descendFrom s p n of
            None \<Rightarrow> getDescendantAtPos fuel h p s = Some (Inr None, s')
          | Some m \<Rightarrow> \<exists>y. nodeCache s' (ident m) = Some y \<and> slot s' y = Some m \<and>
              getDescendantAtPos fuel h p s = Some (Inr (Some y), s'))
       \<and> (descendFrom s p n = None \<longleftrightarrow> childAt s p n = None)
       \<and> (\<forall>m. descendFrom s p n = Some m \<longrightarrow>
             m \<in> set (concat (map subtrees (tschildren n))) \<and> inside s p m \<and>
             childAt s p m = None)
       \<and> (rangesOk s n \<longrightarrow>
             (\<forall>d \<in> set (concat (map subtrees (tschildren n))). inside s p d \<longrightarrow>
                (\<exists>m. descendFrom s p n = Some m \<and> m \<in> set (subtrees d))))"
proof (intro conjI)
  from getChildAtPos_tree[OF assms(1,2,3), of p]
  show "\<exists>s'. case (if inside s p n then find (inside s p) (tschildren n) else None) of
            None \<Rightarrow> getChildAtPos h p s = (Inr None, s')
          | Some c \<Rightarrow> \<exists>y. nodeCache s' (ident c) = Some y \<and> slot s' y = Some c \<and>
              getChildAtPos h p s = (Inr (Some y), s')"
    unfolding childAt_def by blast
  from narrow_tree[OF assms(1,2,3) _ assms(4), of None h p]
  show "\<exists>s'. case descendFrom s p n of
            None \<Rightarrow> getDescendantAtPos fuel h p s = Some (Inr None, s')
          | Some m \<Rightarrow> \<exists>y. nodeCache s' (ident m) = Some y \<and> slot s' y = Some m \<and>
              getDescendantAtPos fuel h p s = Some (Inr (Some y), s')"
    unfolding getDescendantAtPos_def by auto
  show "descendFrom s p n = None \<longleftrightarrow> childAt s p n = None" by (rule descendFrom_None)
  show "\<forall>m. descendFrom s p n = Some m \<longrightarrow>
             m \<in> set (concat (map subtrees (tschildren n))) \<and> inside s p m \<and>
             childAt s p m = None"
    using descendFrom_sound by blast
  show "rangesOk s n \<longrightarrow>
             (\<forall>d \<in> set (concat (map subtrees (tschildren n))). inside s p d \<longrightarrow>
                (\<exists>m. descendFrom s p n = Some m \<and> m \<in> set (subtrees d)))"
    using descendFrom_deepest by blast
qed

lemma exSession_sessionOk: "sessionOk exFile 0 exSession"
  unfolding sessionOk_def
proof
  show "cacheOk exFile exSession" by (rule exSession_ok)
  show "fileOk exFile 0 exSession" by (simp add: fileOk_def exTree exSession_def)
qed

theorem position_queries_narrow_witness:
  "(\<exists>s' y. getChildAtPos 2 16 exSession = (Inr (Some y), s') \<and> slot s' y = Some exMembers) \<and>
   (\<exists>s' y. getDescendantAtPos 4 2 16 exSession = Some (Inr (Some y), s') \<and>
      slot s' y = Some exInit)"
proof -
  have n: "exClass \<in> set (subtrees exFile)" by (simp add: exTree)
  have e: "nodeCache exSession (ident exClass) = Some 2" by (simp add: exSession_def exClass_def)
  have h: "height exClass \<le> 4" by (simp add: exTree)
  have i: "inside exSession 16 exClass"
    by (simp add: inside_def exSession_def exClass_def)
  have f: "find (inside exSession 16) (tschildren exClass) = Some exMembers"
    by (simp add: inside_def exSession_def exTree)
  have d: "descendFrom exSession 16 exClass = Some exInit"
    by (simp add: inside_def exSession_def exTree)
  from position_queries_narrow[OF exSession_sessionOk n e h, of 16]
  show ?thesis by (simp add: i f d) blast
qed

section \<open>Siblings\<close>

subsection \<open>Parents and children in a well-formed session\<close>

lemma mapA_wrap_session:
  assumes "sessionOk r sf s" and "set cs \<subseteq> set (subtrees r)" and "sourceFile s h = sf"
    and "h < nextHandle s"
  shows "\<exists>hs s'. mapA (wrap h) cs s = (Inr hs, s') \<and> sessionOk r sf s' \<and> handlesKept s s' \<and>
      sameNodes s s' \<and> map (\<lambda>c. nodeCache s' (ident c)) cs = map Some hs"
  using assms
proof (induction cs arbitrary: s)
  case Nil
  then show ?case by (simp add: ret_def handlesKept_refl sameNodes_refl)
next
  case (Cons c cs)
  from Cons.prems(2) have c: "c \<in> set (subtrees r)" and cs: "set cs \<subseteq> set (subtrees r)" by auto
  obtain y s1 where w: "wrap h c s = (Inr y, s1)" and ok1: "sessionOk r sf s1"
    and hk1: "handlesKept s s1" and sn1: "sameNodes s s1"
    and e1: "nodeCache s1 (ident c) = Some y"
    using wrap_session[OF Cons.prems(1) c Cons.prems(3)] by metis
  have f1: "sourceFile s1 h = sf" and h1: "h < nextHandle s1"
    using hk1 Cons.prems(3,4) by (auto simp: handlesKept_def)
  from Cons.IH[OF ok1 cs f1 h1] obtain hs s2 where
    m: "mapA (wrap h) cs s1 = (Inr hs, s2)" and ok2: "sessionOk r sf s2"
    and hk2: "handlesKept s1 s2" and sn2: "sameNodes s1 s2"
    and e2: "map (\<lambda>c. nodeCache s2 (ident c)) cs = map Some hs"
    by blast
  have run: "mapA (wrap h) (c # cs) s = (Inr (y # hs), s2)"
    using w m by (simp add: bnd_def ret_def)
  have "nodeCache s2 (ident c) = Some y" using e1 hk2 by (simp add: handlesKept_def)
  with e2 have e: "map (\<lambda>c. nodeCache s2 (ident c)) (c # cs) = map Some (y # hs)" by simp
  show ?case
    using run ok2 handlesKept_trans[OF hk1 hk2] sameNodes_trans[OF sn1 sn2] e by blast
qed

lemma getChildren_session:
  assumes ok: "sessionOk r sf s" and n: "n \<in> set (subtrees r)"
    and e: "nodeCache s (ident n) = Some h"
  shows "\<exists>hs s'. getChildren h s = (Inr hs, s') \<and> sessionOk r sf s' \<and> handlesKept s s' \<and>
      sameNodes s s' \<and> map (\<lambda>c. nodeCache s' (ident c)) (tschildren n) = map Some hs"
proof -
  note d = sessionOkD[OF ok n e]
  have sub: "set (tschildren n) \<subseteq> set (subtrees r)" using children_in_tree[OF n] by blast
  have "getChildren h s = mapA (wrap h) (tschildren n) s"
    using d(2) by (simp add: getChildren_def bnd_def compilerNode_def)
  with mapA_wrap_session[OF ok sub d(3) d(1)] show ?thesis by simp
qed

lemma getParent_session:
  assumes ok: "sessionOk r sf s" and n: "n \<in> set (subtrees r)"
    and e: "nodeCache s (ident n) = Some h" and p: "tsparent s (ident n) = Some pn"
    and pn: "pn \<in> set (subtrees r)"
  shows "\<exists>ph s'. getParent h s = (Inr (Some ph), s') \<and> sessionOk r sf s' \<and> handlesKept s s' \<and>
      sameNodes s s' \<and> nodeCache s' (ident pn) = Some ph"
proof -
  note d = sessionOkD[OF ok n e]
  obtain y s1 where w: "wrap h pn s = (Inr y, s1)" and ok1: "sessionOk r sf s1"
    and hk1: "handlesKept s s1" and sn1: "sameNodes s s1"
    and e1: "nodeCache s1 (ident pn) = Some y"
    using wrap_session[OF ok pn d(3)] by metis
  have "getParent h s = (Inr (Some y), s1)"
    using d(2) p w by (simp add: getParent_def act)
  with ok1 hk1 sn1 e1 show ?thesis by blast
qed

lemma same_handle:
  assumes "sessionOk r sf s" and "a \<in> set (subtrees r)" and "b \<in> set (subtrees r)"
    and "nodeCache s (ident a) = Some x" and "nodeCache s (ident b) = Some y"
  shows "x = y \<longleftrightarrow> ident a = ident b"
proof
  assume "x = y"
  with sessionOkD(2)[OF assms(1,2,4)] sessionOkD(2)[OF assms(1,3,5)] show "ident a = ident b"
    by simp
next
  assume "ident a = ident b"
  with assms(4,5) show "x = y" by simp
qed

lemma coversAsList_live:
  assumes "slot s y = Some c"
  shows "coversAsList (tspos s (ident n)) (tsend s (ident n)) y s = (Inr (coversList s n c), s)"
  using assms
  by (auto simp: coversAsList_def getKind_live getPos_live getEnd_live bnd_def ret_def
        coversList_def)

lemma scanForList_session:
  assumes ok: "sessionOk r sf s" and n: "n \<in> set (subtrees r)"
    and e: "nodeCache s (ident n) = Some h"
  shows "set cs \<subseteq> set (subtrees r) \<Longrightarrow> map (\<lambda>c. nodeCache s (ident c)) cs = map Some hs \<Longrightarrow>
     scanForList h (tspos s (ident n)) (tsend s (ident n)) hs s =
       (Inr (case find (\<lambda>c. stopsScan s n c \<or> coversList s n c) cs of
               None \<Rightarrow> None
             | Some c \<Rightarrow> if stopsScan s n c then None else nodeCache s (ident c)), s)"
proof (induction cs arbitrary: hs)
  case Nil
  then show ?case by (simp add: ret_def)
next
  case (Cons c cs)
  from Cons.prems(2) obtain y ys where hs: "hs = y # ys" and ey: "nodeCache s (ident c) = Some y"
    and eys: "map (\<lambda>c. nodeCache s (ident c)) cs = map Some ys"
    by (cases hs) auto
  from Cons.prems(1) have c: "c \<in> set (subtrees r)" and cs: "set cs \<subseteq> set (subtrees r)" by auto
  note ly = sessionOkD(2)[OF ok c ey]
  have same: "y = h \<longleftrightarrow> ident c = ident n" using same_handle[OF ok c n ey e] .
  show ?case
  proof (cases "stopsScan s n c")
    case True
    then have "scanForList h (tspos s (ident n)) (tsend s (ident n)) (y # ys) s = (Inr None, s)"
      using same by (auto simp: getPos_live[OF ly] bnd_def ret_def stopsScan_def)
    with True hs show ?thesis by simp
  next
    case False
    then have ns: "\<not> (tspos s (ident c) > tspos s (ident n) \<or> y = h)"
      using same by (simp add: stopsScan_def)
    show ?thesis
    proof (cases "coversList s n c")
      case True
      have "scanForList h (tspos s (ident n)) (tsend s (ident n)) (y # ys) s = (Inr (Some y), s)"
        using ns True by (simp add: getPos_live[OF ly] coversAsList_live[OF ly] bnd_def ret_def)
      with True False hs ey show ?thesis by simp
    next
      case nc: False
      have "scanForList h (tspos s (ident n)) (tsend s (ident n)) (y # ys) s =
            scanForList h (tspos s (ident n)) (tsend s (ident n)) ys s"
        using ns nc by (simp add: getPos_live[OF ly] coversAsList_live[OF ly] bnd_def)
      with Cons.IH[OF cs eys] nc False hs show ?thesis by simp
    qed
  qed
qed

lemma getParentSyntaxList_session:
  assumes ok: "sessionOk r sf s" and n: "n \<in> set (subtrees r)"
    and e: "nodeCache s (ident n) = Some h" and p: "tsparent s (ident n) = Some pn"
    and pn: "pn \<in> set (subtrees r)"
  shows "\<exists>s'. sessionOk r sf s' \<and> handlesKept s s' \<and> sameNodes s s' \<and>
      (\<exists>ph. nodeCache s' (ident pn) = Some ph) \<and>
      (case parentList s n pn of
         None \<Rightarrow> getParentSyntaxList h s = (Inr None, s')
       | Some l \<Rightarrow> \<exists>y. nodeCache s' (ident l) = Some y \<and> slot s' y = Some l \<and>
           getParentSyntaxList h s = (Inr (Some y), s'))"
proof -
  from getParent_session[OF ok n e p pn] obtain ph s1 where
    g: "getParent h s = (Inr (Some ph), s1)" and ok1: "sessionOk r sf s1"
    and hk1: "handlesKept s s1" and sn1: "sameNodes s s1"
    and e1: "nodeCache s1 (ident pn) = Some ph" by blast
  have eh1: "nodeCache s1 (ident n) = Some h" using e hk1 by (simp add: handlesKept_def)
  note d1 = sessionOkD[OF ok1 n eh1]
  from getChildren_session[OF ok1 pn e1] obtain hs s2 where
    gc: "getChildren ph s1 = (Inr hs, s2)" and ok2: "sessionOk r sf s2"
    and hk2: "handlesKept s1 s2" and sn2: "sameNodes s1 s2"
    and es: "map (\<lambda>c. nodeCache s2 (ident c)) (tschildren pn) = map Some hs" by blast
  have eh2: "nodeCache s2 (ident n) = Some h" using eh1 hk2 by (simp add: handlesKept_def)
  have sub: "set (tschildren pn) \<subseteq> set (subtrees r)" using children_in_tree[OF pn] by blast
  have sn: "sameNodes s s2" using sameNodes_trans[OF sn1 sn2] .
  have pe: "tspos s1 (ident n) = tspos s2 (ident n)" "tsend s1 (ident n) = tsend s2 (ident n)"
    using sn2 by (simp_all add: sameNodes_def)
  have run: "getParentSyntaxList h s =
      scanForList h (tspos s2 (ident n)) (tsend s2 (ident n)) hs s2"
    using g gc d1(2) pe
    by (simp add: getParentSyntaxList_def bnd_def getPos_live[OF d1(2)] getEnd_live[OF d1(2)])
  have st: "stopsScan s2 n = stopsScan s n" "coversList s2 n = coversList s n"
    using sn by (auto simp: stopsScan_def coversList_def sameNodes_def fun_eq_iff)
  have res: "getParentSyntaxList h s =
       (Inr (case find (\<lambda>c. stopsScan s n c \<or> coversList s n c) (tschildren pn) of
               None \<Rightarrow> None
             | Some c \<Rightarrow> if stopsScan s n c then None else nodeCache s2 (ident c)), s2)"
    unfolding run scanForList_session[OF ok2 n eh2 sub es] st ..
  have pres: "\<exists>ph. nodeCache s2 (ident pn) = Some ph"
    using e1 hk2 by (simp add: handlesKept_def)
  have "case parentList s n pn of
         None \<Rightarrow> getParentSyntaxList h s = (Inr None, s2)
       | Some l \<Rightarrow> \<exists>y. nodeCache s2 (ident l) = Some y \<and> slot s2 y = Some l \<and>
           getParentSyntaxList h s = (Inr (Some y), s2)"
  proof (cases "parentList s n pn")
    case None
    then show ?thesis unfolding res
      by (auto simp: parentList_def split: option.splits if_splits)
  next
    case (Some l)
    then have f: "find (\<lambda>c. stopsScan s n c \<or> coversList s n c) (tschildren pn) = Some l"
      and ns: "\<not> stopsScan s n l"
      by (auto simp: parentList_def split: option.splits if_splits)
    from f have "l \<in> set (tschildren pn)" by (auto simp: find_Some_iff)
    with sub have lin: "l \<in> set (subtrees r)" by auto
    from es \<open>l \<in> set (tschildren pn)\<close> obtain y where y: "nodeCache s2 (ident l) = Some y"
      by (metis (mono_tags, lifting) imageE image_eqI list.set_map)
    note sessionOkD(2)[OF ok2 lin y]
    with y Some f ns show ?thesis unfolding res by simp
  qed
  with ok2 handlesKept_trans[OF hk1 hk2] sn pres show ?thesis by blast
qed

subsection \<open>The loops over the sibling group\<close>

lemma previousLoop_session:
  assumes n: "n \<in> set (subtrees r)"
  shows "sessionOk r sf s \<Longrightarrow> nodeCache s (ident n) = Some h \<Longrightarrow>
    set cs \<subseteq> set (subtrees r) \<Longrightarrow> sourceFile s ph = sf \<Longrightarrow> ph < nextHandle s \<Longrightarrow>
    \<exists>ys s'. previousLoop ph h acc cs s = (Inr (ys @ acc), s') \<and> sessionOk r sf s' \<and>
      handlesKept s s' \<and> sameNodes s s' \<and>
      map (slot s') ys = map Some (rev (takeWhile (\<lambda>c. ident c \<noteq> ident n) cs))"
proof (induction cs arbitrary: s acc)
  case Nil
  then show ?case by (simp add: ret_def handlesKept_refl sameNodes_refl)
next
  case (Cons c cs)
  from Cons.prems(3) have c: "c \<in> set (subtrees r)" and cs: "set cs \<subseteq> set (subtrees r)" by auto
  obtain y s1 where w: "wrap ph c s = (Inr y, s1)" and ok1: "sessionOk r sf s1"
    and hk1: "handlesKept s s1" and sn1: "sameNodes s s1"
    and e1: "nodeCache s1 (ident c) = Some y" and l1: "slot s1 y = Some c"
    using wrap_session[OF Cons.prems(1) c Cons.prems(4)] by metis
  have eh1: "nodeCache s1 (ident n) = Some h" using Cons.prems(2) hk1 by (simp add: handlesKept_def)
  have same: "y = h \<longleftrightarrow> ident c = ident n" using same_handle[OF ok1 c n e1 eh1] .
  show ?case
  proof (cases "ident c = ident n")
    case True
    then have "previousLoop ph h acc (c # cs) s = (Inr ([] @ acc), s1)"
      using w same by (simp add: bnd_def ret_def)
    with True ok1 hk1 sn1 show ?thesis by (intro exI[of _ "[]"] exI[of _ s1]) simp
  next
    case False
    have step: "previousLoop ph h acc (c # cs) s = previousLoop ph h (y # acc) cs s1"
      using w same False by (simp add: bnd_def)
    have f1: "sourceFile s1 ph = sf" and h1: "ph < nextHandle s1"
      using hk1 Cons.prems(4,5) by (auto simp: handlesKept_def)
    from Cons.IH[OF ok1 eh1 cs f1 h1, of "y # acc"] obtain ys s2 where
      r: "previousLoop ph h (y # acc) cs s1 = (Inr (ys @ y # acc), s2)"
      and ok2: "sessionOk r sf s2" and hk2: "handlesKept s1 s2" and sn2: "sameNodes s1 s2"
      and m: "map (slot s2) ys = map Some (rev (takeWhile (\<lambda>c. ident c \<noteq> ident n) cs))"
      by blast
    have "y < nextHandle s1" using sessionOkD(1)[OF ok1 c e1] .
    with hk2 l1 have l2: "slot s2 y = Some c" by (simp add: handlesKept_def)
    have "previousLoop ph h acc (c # cs) s = (Inr ((ys @ [y]) @ acc), s2)"
      using step r by simp
    moreover have "map (slot s2) (ys @ [y]) =
        map Some (rev (takeWhile (\<lambda>c. ident c \<noteq> ident n) (c # cs)))"
      using m l2 False by simp
    ultimately show ?thesis
      using ok2 handlesKept_trans[OF hk1 hk2] sameNodes_trans[OF sn1 sn2] by blast
  qed
qed

lemma nextLoop_session:
  assumes n: "n \<in> set (subtrees r)"
  shows "sessionOk r sf s \<Longrightarrow> nodeCache s (ident n) = Some h \<Longrightarrow>
    set cs \<subseteq> set (subtrees r) \<Longrightarrow> sourceFile s ph = sf \<Longrightarrow> ph < nextHandle s \<Longrightarrow>
    \<exists>ys s'. nextLoop ph h found acc cs s = (Inr (acc @ ys), s') \<and> sessionOk r sf s' \<and>
      handlesKept s s' \<and> sameNodes s s' \<and>
      map (slot s') ys =
        map Some (if found then cs else drop 1 (dropWhile (\<lambda>c. ident c \<noteq> ident n) cs))"
proof (induction cs arbitrary: s acc found)
  case Nil
  then show ?case by (simp add: ret_def handlesKept_refl sameNodes_refl)
next
  case (Cons c cs)
  from Cons.prems(3) have c: "c \<in> set (subtrees r)" and cs: "set cs \<subseteq> set (subtrees r)" by auto
  obtain y s1 where w: "wrap ph c s = (Inr y, s1)" and ok1: "sessionOk r sf s1"
    and hk1: "handlesKept s s1" and sn1: "sameNodes s s1"
    and e1: "nodeCache s1 (ident c) = Some y" and l1: "slot s1 y = Some c"
    using wrap_session[OF Cons.prems(1) c Cons.prems(4)] by metis
  have eh1: "nodeCache s1 (ident n) = Some h" using Cons.prems(2) hk1 by (simp add: handlesKept_def)
  have same: "y = h \<longleftrightarrow> ident c = ident n" using same_handle[OF ok1 c n e1 eh1] .
  have f1: "sourceFile s1 ph = sf" and h1: "ph < nextHandle s1"
    using hk1 Cons.prems(4,5) by (auto simp: handlesKept_def)
  show ?case
  proof (cases found)
    case False
    have step: "nextLoop ph h found acc (c # cs) s = nextLoop ph h (y = h) acc cs s1"
      using w False by (simp add: bnd_def)
    from Cons.IH[OF ok1 eh1 cs f1 h1, of "y = h" acc] obtain ys s2 where
      r: "nextLoop ph h (y = h) acc cs s1 = (Inr (acc @ ys), s2)"
      and ok2: "sessionOk r sf s2" and hk2: "handlesKept s1 s2" and sn2: "sameNodes s1 s2"
      and m: "map (slot s2) ys =
        map Some (if y = h then cs else drop 1 (dropWhile (\<lambda>c. ident c \<noteq> ident n) cs))"
      by blast
    have "map (slot s2) ys =
        map Some (if found then c # cs
                  else drop 1 (dropWhile (\<lambda>c. ident c \<noteq> ident n) (c # cs)))"
      using m same False by simp
    with step r ok2 handlesKept_trans[OF hk1 hk2] sameNodes_trans[OF sn1 sn2]
    show ?thesis by auto
  next
    case True
    have step: "nextLoop ph h found acc (c # cs) s = nextLoop ph h found (acc @ [y]) cs s1"
      using w True by (simp add: bnd_def)
    from Cons.IH[OF ok1 eh1 cs f1 h1, of found "acc @ [y]"] obtain ys s2 where
      r: "nextLoop ph h found (acc @ [y]) cs s1 = (Inr ((acc @ [y]) @ ys), s2)"
      and ok2: "sessionOk r sf s2" and hk2: "handlesKept s1 s2" and sn2: "sameNodes s1 s2"
      and m: "map (slot s2) ys =
        map Some (if found then cs else drop 1 (dropWhile (\<lambda>c. ident c \<noteq> ident n) cs))"
      by blast
    have "y < nextHandle s1" using sessionOkD(1)[OF ok1 c e1] .
    with hk2 l1 have l2: "slot s2 y = Some c" by (simp add: handlesKept_def)
    have "nextLoop ph h found acc (c # cs) s = (Inr (acc @ (y # ys)), s2)"
      using step r by simp
    moreover have "map (slot s2) (y # ys) =
        map Some (if found then c # cs
                  else drop 1 (dropWhile (\<lambda>c. ident c \<noteq> ident n) (c # cs)))"
      using m l2 True by simp
    ultimately show ?thesis
      using ok2 handlesKept_trans[OF hk1 hk2] sameNodes_trans[OF sn1 sn2] by blast
  qed
qed

lemma siblingParent_session:
  assumes ok: "sessionOk r sf s" and n: "n \<in> set (subtrees r)"
    and e: "nodeCache s (ident n) = Some h" and p: "tsparent s (ident n) = Some pn"
    and pn: "pn \<in> set (subtrees r)"
  shows "\<exists>ph s'. siblingParent h s = (Inr ph, s') \<and> sessionOk r sf s' \<and> handlesKept s s' \<and>
      sameNodes s s' \<and>
      nodeCache s' (ident (case parentList s n pn of Some l \<Rightarrow> l | None \<Rightarrow> pn)) = Some ph \<and>
      (case parentList s n pn of Some l \<Rightarrow> l | None \<Rightarrow> pn) \<in> set (subtrees r)"
proof -
  from getParentSyntaxList_session[OF ok n e p pn] obtain s1 ph where
    ok1: "sessionOk r sf s1" and hk1: "handlesKept s s1" and sn1: "sameNodes s s1"
    and ep: "nodeCache s1 (ident pn) = Some ph"
    and r: "case parentList s n pn of
         None \<Rightarrow> getParentSyntaxList h s = (Inr None, s1)
       | Some l \<Rightarrow> \<exists>y. nodeCache s1 (ident l) = Some y \<and> slot s1 y = Some l \<and>
           getParentSyntaxList h s = (Inr (Some y), s1)"
    by blast
  show ?thesis
  proof (cases "parentList s n pn")
    case None
    with r have g: "getParentSyntaxList h s = (Inr None, s1)" by simp
    have eh1: "nodeCache s1 (ident n) = Some h" using e hk1 by (simp add: handlesKept_def)
    have p1: "tsparent s1 (ident n) = Some pn" using p sn1 by (simp add: sameNodes_def)
    have "getParent h s1 = (Inr (Some ph), s1)"
      using sessionOkD(2)[OF ok1 n eh1] p1 ep
      by (simp add: getParent_def act wrap_def getNodeFromCompilerNode_def)
    then have "getParentOrThrow h s1 = (Inr ph, s1)"
      by (simp add: getParentOrThrow_def bnd_def ret_def)
    with g have "siblingParent h s = (Inr ph, s1)" by (simp add: siblingParent_def bnd_def)
    with None ok1 hk1 sn1 ep pn show ?thesis by auto
  next
    case (Some l)
    with r obtain y where y: "nodeCache s1 (ident l) = Some y"
      and g: "getParentSyntaxList h s = (Inr (Some y), s1)" by auto
    have "siblingParent h s = (Inr y, s1)" using g by (simp add: siblingParent_def bnd_def ret_def)
    moreover from Some have "l \<in> set (tschildren pn)"
      by (auto simp: parentList_def find_Some_iff split: option.splits if_splits)
    then have "l \<in> set (subtrees r)" using children_in_tree[OF pn] by blast
    ultimately show ?thesis using Some ok1 hk1 sn1 y by auto
  qed
qed

lemma getPreviousSiblings_session:
  assumes ok: "sessionOk r sf s" and n: "n \<in> set (subtrees r)"
    and e: "nodeCache s (ident n) = Some h" and p: "tsparent s (ident n) = Some pn"
    and pn: "pn \<in> set (subtrees r)"
  shows "\<exists>ys s'. getPreviousSiblings h s = (Inr ys, s') \<and>
      map (slot s') ys =
        map Some (rev (takeWhile (\<lambda>c. ident c \<noteq> ident n) (siblingGroup s n pn)))"
proof -
  define g where "g = (case parentList s n pn of Some l \<Rightarrow> l | None \<Rightarrow> pn)"
  from siblingParent_session[OF ok n e p pn] obtain ph s1 where
    sp: "siblingParent h s = (Inr ph, s1)" and ok1: "sessionOk r sf s1"
    and hk1: "handlesKept s s1" and eg: "nodeCache s1 (ident g) = Some ph"
    and gin: "g \<in> set (subtrees r)"
    unfolding g_def by blast
  have eh1: "nodeCache s1 (ident n) = Some h" using e hk1 by (simp add: handlesKept_def)
  note d = sessionOkD[OF ok1 gin eg]
  have sub: "set (tschildren g) \<subseteq> set (subtrees r)" using children_in_tree[OF gin] by blast
  from previousLoop_session[OF n ok1 eh1 sub d(3) d(1), of "[]"] obtain ys s2 where
    l: "previousLoop ph h [] (tschildren g) s1 = (Inr (ys @ []), s2)"
    and m: "map (slot s2) ys = map Some (rev (takeWhile (\<lambda>c. ident c \<noteq> ident n) (tschildren g)))"
    by blast
  have "getPreviousSiblings h s = (Inr ys, s2)"
    using sp iterChildren_tree[OF ok1 gin eg] l by (simp add: getPreviousSiblings_def bnd_def)
  with m show ?thesis unfolding siblingGroup_def g_def by blast
qed

lemma getNextSiblings_session:
  assumes ok: "sessionOk r sf s" and n: "n \<in> set (subtrees r)"
    and e: "nodeCache s (ident n) = Some h" and p: "tsparent s (ident n) = Some pn"
    and pn: "pn \<in> set (subtrees r)"
  shows "\<exists>ys s'. getNextSiblings h s = (Inr ys, s') \<and>
      map (slot s') ys =
        map Some (drop 1 (dropWhile (\<lambda>c. ident c \<noteq> ident n) (siblingGroup s n pn)))"
proof -
  define g where "g = (case parentList s n pn of Some l \<Rightarrow> l | None \<Rightarrow> pn)"
  from siblingParent_session[OF ok n e p pn] obtain ph s1 where
    sp: "siblingParent h s = (Inr ph, s1)" and ok1: "sessionOk r sf s1"
    and hk1: "handlesKept s s1" and eg: "nodeCache s1 (ident g) = Some ph"
    and gin: "g \<in> set (subtrees r)"
    unfolding g_def by blast
  have eh1: "nodeCache s1 (ident n) = Some h" using e hk1 by (simp add: handlesKept_def)
  note d = sessionOkD[OF ok1 gin eg]
  have sub: "set (tschildren g) \<subseteq> set (subtrees r)" using children_in_tree[OF gin] by blast
  from nextLoop_session[OF n ok1 eh1 sub d(3) d(1), of False "[]"] obtain ys s2 where
    l: "nextLoop ph h False [] (tschildren g) s1 = (Inr ([] @ ys), s2)"
    and m: "map (slot s2) ys =
       map Some (if False then tschildren g
                 else drop 1 (dropWhile (\<lambda>c. ident c \<noteq> ident n) (tschildren g)))"
    by blast
  have "getNextSiblings h s = (Inr ys, s2)"
    using sp iterChildren_tree[OF ok1 gin eg] l by (simp add: getNextSiblings_def bnd_def)
  with m show ?thesis unfolding siblingGroup_def g_def by auto
qed

lemma parentList_Some:
  "parentList s n pn = Some l \<longleftrightarrow>
     (\<exists>ys zs. tschildren pn = ys @ l # zs \<and> coversList s n l \<and> \<not> stopsScan s n l \<and>
        (\<forall>c \<in> set ys. \<not> stopsScan s n c \<and> \<not> coversList s n c))"
proof
  assume "parentList s n pn = Some l"
  then have f: "find (\<lambda>c. stopsScan s n c \<or> coversList s n c) (tschildren pn) = Some l"
    and ns: "\<not> stopsScan s n l"
    by (auto simp: parentList_def split: option.splits if_splits)
  from f obtain i where i: "i < length (tschildren pn)" "tschildren pn ! i = l"
    "stopsScan s n l \<or> coversList s n l"
    "\<forall>j<i. \<not> (stopsScan s n (tschildren pn ! j) \<or> coversList s n (tschildren pn ! j))"
    by (auto simp: find_Some_iff)
  have split: "tschildren pn = take i (tschildren pn) @ l # drop (Suc i) (tschildren pn)"
    using i(1,2) by (metis id_take_nth_drop)
  have "\<forall>c \<in> set (take i (tschildren pn)). \<not> stopsScan s n c \<and> \<not> coversList s n c"
    using i(1,4) by (auto simp: in_set_conv_nth)
  with split i(3) ns
  show "\<exists>ys zs. tschildren pn = ys @ l # zs \<and> coversList s n l \<and> \<not> stopsScan s n l \<and>
        (\<forall>c \<in> set ys. \<not> stopsScan s n c \<and> \<not> coversList s n c)"
    by blast
next
  assume "\<exists>ys zs. tschildren pn = ys @ l # zs \<and> coversList s n l \<and> \<not> stopsScan s n l \<and>
        (\<forall>c \<in> set ys. \<not> stopsScan s n c \<and> \<not> coversList s n c)"
  then obtain ys zs where a: "tschildren pn = ys @ l # zs" "coversList s n l" "\<not> stopsScan s n l"
        "\<forall>c \<in> set ys. \<not> stopsScan s n c \<and> \<not> coversList s n c" by blast
  have "find (\<lambda>c. stopsScan s n c \<or> coversList s n c) (ys @ l # zs) = Some l"
    using a(2,4) by (induction ys) auto
  with a show "parentList s n pn = Some l" by (simp add: parentList_def)
qed

lemma find_prefix_ok:
  assumes "\<forall>c \<in> set ys. \<not> Q c" and "P l" and "\<not> Q l"
  shows "\<exists>x. find (\<lambda>c. Q c \<or> P c) (ys @ l # zs) = Some x \<and> \<not> Q x"
  using assms by (induction ys) auto

lemma parentList_ordered:
  assumes srt: "sorted_wrt (\<lambda>a b. tsend s (ident a) \<le> tspos s (ident b)) (tschildren pn)"
    and wid: "\<forall>c \<in> set (tschildren pn). tspos s (ident c) \<le> tsend s (ident c)"
    and nz: "tspos s (ident n) < tsend s (ident n)"
  shows "parentList s n pn \<noteq> None \<longleftrightarrow>
     (\<exists>l \<in> set (tschildren pn). ident l \<noteq> ident n \<and> coversList s n l)"
proof
  assume "parentList s n pn \<noteq> None"
  then obtain l where "parentList s n pn = Some l" by auto
  then have "l \<in> set (tschildren pn)" "coversList s n l" "\<not> stopsScan s n l"
    by (auto simp: parentList_Some)
  then show "\<exists>l \<in> set (tschildren pn). ident l \<noteq> ident n \<and> coversList s n l"
    by (auto simp: stopsScan_def)
next
  assume "\<exists>l \<in> set (tschildren pn). ident l \<noteq> ident n \<and> coversList s n l"
  then obtain l where l: "l \<in> set (tschildren pn)" "ident l \<noteq> ident n" "coversList s n l"
    by blast
  from l(1) obtain ys zs where sp: "tschildren pn = ys @ l # zs" by (auto simp: in_set_conv_decomp)
  have nl: "\<not> stopsScan s n l" using l(2,3) by (auto simp: stopsScan_def coversList_def)
  have "\<not> stopsScan s n c" if "c \<in> set ys" for c
  proof -
    from srt sp that have 1: "tsend s (ident c) \<le> tspos s (ident l)"
      by (auto simp: sorted_wrt_append)
    from wid sp that have 2: "tspos s (ident c) \<le> tsend s (ident c)" by auto
    from l(3) have 3: "tspos s (ident l) \<le> tspos s (ident n)" by (simp add: coversList_def)
    have "ident c \<noteq> ident n"
    proof
      assume "ident c = ident n"
      with 1 3 nz show False by simp
    qed
    with 1 2 3 show ?thesis by (simp add: stopsScan_def)
  qed
  then have "\<forall>c \<in> set ys. \<not> stopsScan s n c" by blast
  from find_prefix_ok[where Q = "stopsScan s n" and P = "coversList s n" and ys = ys and l = l
      and zs = zs, OF this l(3) nl]
  show "parentList s n pn \<noteq> None"
    by (auto simp: parentList_def sp)
qed

text \<open>
  C8, as the code has it: in a well-formed session, for the cached handle of a node whose
  syntactic parent is in the tree, \<^verbatim>\<open>getParentSyntaxList()\<close> scans the parent's direct
  children in order and returns the first syntax list whose range covers the node, unless
  before it the scan meets a child that starts after the node or the node itself: then
  there is no parent syntax list. \<^verbatim>\<open>getPreviousSiblings()\<close> and \<^verbatim>\<open>getNextSiblings()\<close>
  return the children of that list, or of the syntactic parent when there is none, that
  stand before the node (the closest first) and after it. When the parent's children
  stand one after the other and the node is not empty, there is a parent syntax list
  exactly when a direct child of the parent other than the node is a syntax list whose
  range covers the node.
\<close>

theorem siblings_through_syntax_list:
  assumes "sessionOk r sf s" and "n \<in> set (subtrees r)" and "nodeCache s (ident n) = Some h"
    and "tsparent s (ident n) = Some pn" and "pn \<in> set (subtrees r)"
  shows "(\<exists>s'. case parentList s n pn of
            None \<Rightarrow> getParentSyntaxList h s = (Inr None, s')
          | Some l \<Rightarrow> \<exists>y. nodeCache s' (ident l) = Some y \<and> slot s' y = Some l \<and>
              getParentSyntaxList h s = (Inr (Some y), s'))
     \<and> (\<forall>l. parentList s n pn = Some l \<longleftrightarrow>
           (\<exists>ys zs. tschildren pn = ys @ l # zs \<and> coversList s n l \<and> \<not> stopsScan s n l \<and>
              (\<forall>c \<in> set ys. \<not> stopsScan s n c \<and> \<not> coversList s n c)))
     \<and> (sorted_wrt (\<lambda>a b. tsend s (ident a) \<le> tspos s (ident b)) (tschildren pn) \<and>
         (\<forall>c \<in> set (tschildren pn). tspos s (ident c) \<le> tsend s (ident c)) \<and>
         tspos s (ident n) < tsend s (ident n) \<longrightarrow>
         (parentList s n pn \<noteq> None \<longleftrightarrow>
            (\<exists>l \<in> set (tschildren pn). ident l \<noteq> ident n \<and> coversList s n l)))
     \<and> siblingGroup s n pn =
         tschildren (case parentList s n pn of Some l \<Rightarrow> l | None \<Rightarrow> pn)
     \<and> (\<exists>ys s'. getPreviousSiblings h s = (Inr ys, s') \<and>
           map (slot s') ys =
             map Some (rev (takeWhile (\<lambda>c. ident c \<noteq> ident n) (siblingGroup s n pn))))
     \<and> (\<exists>ys s'. getNextSiblings h s = (Inr ys, s') \<and>
           map (slot s') ys =
             map Some (drop 1 (dropWhile (\<lambda>c. ident c \<noteq> ident n) (siblingGroup s n pn))))"
proof (intro conjI allI)
  from getParentSyntaxList_session[OF assms]
  show "\<exists>s'. case parentList s n pn of
            None \<Rightarrow> getParentSyntaxList h s = (Inr None, s')
          | Some l \<Rightarrow> \<exists>y. nodeCache s' (ident l) = Some y \<and> slot s' y = Some l \<and>
              getParentSyntaxList h s = (Inr (Some y), s')"
    by blast
  show "parentList s n pn = Some l \<longleftrightarrow>
           (\<exists>ys zs. tschildren pn = ys @ l # zs \<and> coversList s n l \<and> \<not> stopsScan s n l \<and>
              (\<forall>c \<in> set ys. \<not> stopsScan s n c \<and> \<not> coversList s n c))" for l
    by (rule parentList_Some)
  show "siblingGroup s n pn =
         tschildren (case parentList s n pn of Some l \<Rightarrow> l | None \<Rightarrow> pn)"
    by (simp add: siblingGroup_def)
  show "sorted_wrt (\<lambda>a b. tsend s (ident a) \<le> tspos s (ident b)) (tschildren pn) \<and>
         (\<forall>c \<in> set (tschildren pn). tspos s (ident c) \<le> tsend s (ident c)) \<and>
         tspos s (ident n) < tsend s (ident n) \<longrightarrow>
         (parentList s n pn \<noteq> None \<longleftrightarrow>
            (\<exists>l \<in> set (tschildren pn). ident l \<noteq> ident n \<and> coversList s n l))"
    using parentList_ordered by blast
  show "\<exists>ys s'. getPreviousSiblings h s = (Inr ys, s') \<and>
           map (slot s') ys =
             map Some (rev (takeWhile (\<lambda>c. ident c \<noteq> ident n) (siblingGroup s n pn)))"
    by (rule getPreviousSiblings_session[OF assms])
  show "\<exists>ys s'. getNextSiblings h s = (Inr ys, s') \<and>
           map (slot s') ys =
             map Some (drop 1 (dropWhile (\<lambda>c. ident c \<noteq> ident n) (siblingGroup s n pn)))"
    by (rule getNextSiblings_session[OF assms])
qed

lemma exParentList:
  "parentList exSession exProp exClass = Some exMembers"
  "parentList exSession exInit exProp = None"
  "parentList exSession exMembers exClass = None"
  by (simp_all add: parentList_def stopsScan_def coversList_def exSession_def exTree)

theorem siblings_through_syntax_list_witness:
  "(\<exists>s' y. getParentSyntaxList 1 exSession = (Inr (Some y), s') \<and> slot s' y = Some exMembers) \<and>
   (\<exists>s'. getParentSyntaxList 4 exSession = (Inr None, s')) \<and>
   (\<exists>ys s'. getPreviousSiblings 4 exSession = (Inr ys, s') \<and>
      map (slot s') ys = [Some (TsNode 9 FirstAssignment []), Some (TsNode 8 (OtherKind 71) [])]) \<and>
   (\<exists>ys s'. getNextSiblings 4 exSession = (Inr ys, s') \<and>
      map (slot s') ys = [Some (TsNode 11 SemicolonToken [])])"
proof -
  have n1: "exProp \<in> set (subtrees exFile)" and n2: "exInit \<in> set (subtrees exFile)"
    and n3: "exClass \<in> set (subtrees exFile)"
    by (simp_all add: exTree)
  have e1: "nodeCache exSession (ident exProp) = Some 1"
    and e2: "nodeCache exSession (ident exInit) = Some 4"
    and p1: "tsparent exSession (ident exProp) = Some exClass"
    and p2: "tsparent exSession (ident exInit) = Some exProp"
    by (simp_all add: exSession_def exProp_def exInit_def)
  have g: "siblingGroup exSession exInit exProp = tschildren exProp"
    by (simp add: siblingGroup_def exParentList)
  note a = siblings_through_syntax_list[OF exSession_sessionOk n1 e1 p1 n3]
  note b = siblings_through_syntax_list[OF exSession_sessionOk n2 e2 p2 n1]
  have a1: "\<exists>s' y. getParentSyntaxList 1 exSession = (Inr (Some y), s') \<and> slot s' y = Some exMembers"
    using conjunct1[OF a] by (simp add: exParentList) blast
  have b1: "\<exists>s'. getParentSyntaxList 4 exSession = (Inr None, s')"
    using conjunct1[OF b] by (simp add: exParentList)
  have b2: "\<exists>ys s'. getPreviousSiblings 4 exSession = (Inr ys, s') \<and>
      map (slot s') ys = [Some (TsNode 9 FirstAssignment []), Some (TsNode 8 (OtherKind 71) [])]"
    using conjunct1[OF conjunct2[OF conjunct2[OF conjunct2[OF conjunct2[OF b]]]], unfolded g]
    by (simp add: exProp_def exInit_def)
  have b3: "\<exists>ys s'. getNextSiblings 4 exSession = (Inr ys, s') \<and>
      map (slot s') ys = [Some (TsNode 11 SemicolonToken [])]"
    using conjunct2[OF conjunct2[OF conjunct2[OF conjunct2[OF conjunct2[OF b]]]], unfolded g]
    by (simp add: exProp_def exInit_def)
  show ?thesis using a1 b1 b2 b3 by blast
qed

theorem syntax_list_itself_counterexample:
  "fst (getParentSyntaxList 5 exSession) = Inr None \<and>
   slot exSession 5 = Some exMembers \<and>
   tsparent exSession (ident exMembers) = Some exClass \<and>
   exMembers \<in> set (tschildren exClass) \<and>
   kind exMembers = SyntaxList \<and>
   tspos exSession (ident exMembers) \<le> tspos exSession (ident exMembers) \<and>
   tsend exSession (ident exMembers) \<le> tsend exSession (ident exMembers)"
proof -
  have n: "exMembers \<in> set (subtrees exFile)" and c: "exClass \<in> set (subtrees exFile)"
    by (simp_all add: exTree)
  have e: "nodeCache exSession (ident exMembers) = Some 5"
    and p: "tsparent exSession (ident exMembers) = Some exClass"
    by (simp_all add: exSession_def exMembers_def)
  from getParentSyntaxList_session[OF exSession_sessionOk n e p c]
  have "fst (getParentSyntaxList 5 exSession) = Inr None"
    by (auto simp: exParentList)
  then show ?thesis using p by (simp add: exSession_def exTree)
qed

section \<open>Removing and setting an initializer\<close>

lemma getPreviousSiblings_kept:
  assumes ok: "sessionOk r sf s" and n: "n \<in> set (subtrees r)"
    and e: "nodeCache s (ident n) = Some h" and p: "tsparent s (ident n) = Some pn"
    and pn: "pn \<in> set (subtrees r)"
  shows "\<exists>ys s'. getPreviousSiblings h s = (Inr ys, s') \<and> sessionOk r sf s' \<and>
      handlesKept s s' \<and> sameNodes s s' \<and>
      map (slot s') ys =
        map Some (rev (takeWhile (\<lambda>c. ident c \<noteq> ident n) (siblingGroup s n pn)))"
proof -
  define g where "g = (case parentList s n pn of Some l \<Rightarrow> l | None \<Rightarrow> pn)"
  from siblingParent_session[OF ok n e p pn] obtain ph s1 where
    sp: "siblingParent h s = (Inr ph, s1)" and ok1: "sessionOk r sf s1"
    and hk1: "handlesKept s s1" and sn1: "sameNodes s s1"
    and eg: "nodeCache s1 (ident g) = Some ph"
    and gin: "g \<in> set (subtrees r)"
    unfolding g_def by blast
  have eh1: "nodeCache s1 (ident n) = Some h" using e hk1 by (simp add: handlesKept_def)
  note d = sessionOkD[OF ok1 gin eg]
  have sub: "set (tschildren g) \<subseteq> set (subtrees r)" using children_in_tree[OF gin] by blast
  from previousLoop_session[OF n ok1 eh1 sub d(3) d(1), of "[]"] obtain ys s2 where
    l: "previousLoop ph h [] (tschildren g) s1 = (Inr (ys @ []), s2)"
    and ok2: "sessionOk r sf s2" and hk2: "handlesKept s1 s2" and sn2: "sameNodes s1 s2"
    and m: "map (slot s2) ys = map Some (rev (takeWhile (\<lambda>c. ident c \<noteq> ident n) (tschildren g)))"
    by blast
  have "getPreviousSiblings h s = (Inr ys, s2)"
    using sp iterChildren_tree[OF ok1 gin eg] l by (simp add: getPreviousSiblings_def bnd_def)
  with m ok2 handlesKept_trans[OF hk1 hk2] sameNodes_trans[OF sn1 sn2]
  show ?thesis unfolding siblingGroup_def g_def by blast
qed

lemma removeInitializer_session:
  assumes ok: "sessionOk r sf s" and n: "n \<in> set (subtrees r)"
    and e: "nodeCache s (ident n) = Some h"
    and i: "tsinitializer s (ident n) = Some ini" and iin: "ini \<in> set (subtrees r)"
    and p: "tsparent s (ident ini) = Some pn" and pn: "pn \<in> set (subtrees r)"
    and prev: "rev (takeWhile (\<lambda>c. ident c \<noteq> ident ini) (siblingGroup s ini pn)) = eq # rest"
    and k: "kind eq = FirstAssignment"
  shows "\<exists>s1 ye yi. sessionOk r sf s1 \<and> handlesKept s s1 \<and> sameNodes s s1 \<and>
      slot s1 ye = Some eq \<and> slot s1 yi = Some ini \<and>
      (\<forall>rc. removeInitializer rc h s =
        bnd (rc \<lparr>children = [ye, yi], removePrecedingSpaces = True\<rparr>) (\<lambda>u. ret h) s1)"
proof -
  note d = sessionOkD[OF ok n e]
  obtain yi s0 where w: "wrap h ini s = (Inr yi, s0)" and ok0: "sessionOk r sf s0"
    and hk0: "handlesKept s s0" and sn0: "sameNodes s s0"
    and ei: "nodeCache s0 (ident ini) = Some yi" and li: "slot s0 yi = Some ini"
    using wrap_session[OF ok iin d(3)] by metis
  have gi: "getInitializer h s = (Inr (Some yi), s0)"
    using d(2) i w by (simp add: getInitializer_def act)
  have p0: "tsparent s0 (ident ini) = Some pn" using p sn0 by (simp add: sameNodes_def)
  have st: "stopsScan s0 ini = stopsScan s ini" "coversList s0 ini = coversList s ini"
    using sn0 by (auto simp: stopsScan_def coversList_def sameNodes_def fun_eq_iff)
  have sg: "siblingGroup s0 ini pn = siblingGroup s ini pn"
    unfolding siblingGroup_def parentList_def st ..
  from getPreviousSiblings_kept[OF ok0 iin ei p0 pn] obtain ys s1 where
    gp: "getPreviousSiblings yi s0 = (Inr ys, s1)" and ok1: "sessionOk r sf s1"
    and hk1: "handlesKept s0 s1" and sn1: "sameNodes s0 s1"
    and m: "map (slot s1) ys = map Some (eq # rest)"
    unfolding sg prev by blast
  from m obtain ye yt where ys: "ys = ye # yt" and le: "slot s1 ye = Some eq" by (cases ys) auto
  have gps: "getPreviousSibling None yi s0 = (Inr (Some ye), s1)"
    using gp ys by (simp add: getPreviousSibling_def bnd_def holds_def ret_def)
  have "yi < nextHandle s0" using sessionOkD(1)[OF ok0 iin ei] .
  with hk1 li have li1: "slot s1 yi = Some ini" by (simp add: handlesKept_def)
  have "removeInitializer rc h s =
        bnd (rc \<lparr>children = [ye, yi], removePrecedingSpaces = True\<rparr>) (\<lambda>u. ret h) s1" for rc
    unfolding removeInitializer_def
    by (simp add: bnd_def[of "getInitializer h"] gi bnd_def[of "getPreviousSibling None yi"] gps
          bnd_def[of "getKind ye"] getKind_live[OF le] k)
  with ok1 handlesKept_trans[OF hk0 hk1] sameNodes_trans[OF sn0 sn1] le li1
  show ?thesis by blast
qed


lemma hasInitializer_True:
  "slot s h = Some n \<Longrightarrow> tsinitializer s (ident n) = Some i \<Longrightarrow> hasInitializer h s = (Inr True, s)"
  by (simp add: hasInitializer_def act)

text \<open>
  C5: in a well-formed session, for the cached handle of a node with an initializer whose
  closest previous sibling is the \<^verbatim>\<open>=\<close> token, \<^verbatim>\<open>removeInitializer()\<close> wraps the two
  nodes and then calls \<^verbatim>\<open>removeChildren\<close> exactly once, with the handles of the \<^verbatim>\<open>=\<close>
  token and of the initializer, in this order, and with \<^verbatim>\<open>removePrecedingSpaces\<close> set;
  what that call returns or throws is the outcome, and on success the handle itself is
  returned. Up to that call no field of a compiler node is written.
\<close>

theorem removeInitializer_single_removal:
  assumes "sessionOk r sf s" and "n \<in> set (subtrees r)" and "nodeCache s (ident n) = Some h"
    and "tsinitializer s (ident n) = Some ini" and "ini \<in> set (subtrees r)"
    and "tsparent s (ident ini) = Some pn" and "pn \<in> set (subtrees r)"
    and "rev (takeWhile (\<lambda>c. ident c \<noteq> ident ini) (siblingGroup s ini pn)) = eq # rest"
    and "kind eq = FirstAssignment"
  shows "hasInitializer h s = (Inr True, s) \<and>
     (\<exists>s1 ye yi. handlesKept s s1 \<and> sameNodes s s1 \<and>
        slot s1 ye = Some eq \<and> slot s1 yi = Some ini \<and>
        (\<forall>rc. removeInitializer rc h s =
           (case rc \<lparr>children = [ye, yi], removePrecedingSpaces = True\<rparr> s1 of
              (Inl e, s2) \<Rightarrow> (Inl e, s2)
            | (Inr u, s2) \<Rightarrow> (Inr h, s2))))"
proof
  show "hasInitializer h s = (Inr True, s)"
    using hasInitializer_True[OF sessionOkD(2)[OF assms(1,2,3)] assms(4)] .
  from removeInitializer_session[OF assms] obtain s1 ye yi where
    a: "handlesKept s s1" "sameNodes s s1" "slot s1 ye = Some eq" "slot s1 yi = Some ini"
    and b: "\<forall>rc. removeInitializer rc h s =
        bnd (rc \<lparr>children = [ye, yi], removePrecedingSpaces = True\<rparr>) (\<lambda>u. ret h) s1"
    by blast
  have "\<forall>rc. removeInitializer rc h s =
           (case rc \<lparr>children = [ye, yi], removePrecedingSpaces = True\<rparr> s1 of
              (Inl e, s2) \<Rightarrow> (Inl e, s2)
            | (Inr u, s2) \<Rightarrow> (Inr h, s2))"
    using b by (auto simp: bnd_def ret_def split: prod.splits sum.splits)
  with a show "\<exists>s1 ye yi. handlesKept s s1 \<and> sameNodes s s1 \<and>
        slot s1 ye = Some eq \<and> slot s1 yi = Some ini \<and>
        (\<forall>rc. removeInitializer rc h s =
           (case rc \<lparr>children = [ye, yi], removePrecedingSpaces = True\<rparr> s1 of
              (Inl e, s2) \<Rightarrow> (Inl e, s2)
            | (Inr u, s2) \<Rightarrow> (Inr h, s2)))"
    by blast
qed

lemma exInit_facts:
  "exProp \<in> set (subtrees exFile)" "nodeCache exSession (ident exProp) = Some 1"
  "tsinitializer exSession (ident exProp) = Some exInit" "exInit \<in> set (subtrees exFile)"
  "tsparent exSession (ident exInit) = Some exProp"
  "rev (takeWhile (\<lambda>c. ident c \<noteq> ident exInit) (siblingGroup exSession exInit exProp)) =
     TsNode 9 FirstAssignment [] # [TsNode 8 (OtherKind 71) []]"
  "kind (TsNode 9 FirstAssignment []) = FirstAssignment"
  by (simp_all add: siblingGroup_def exParentList) (simp_all add: exTree exSession_def)

theorem removeInitializer_single_removal_witness:
  "hasInitializer 1 exSession = (Inr True, exSession) \<and>
   (\<exists>s1 ye yi. slot s1 ye = Some (TsNode 9 FirstAssignment []) \<and> slot s1 yi = Some exInit \<and>
      removeInitializer
        (\<lambda>opts. if children opts = [ye, yi] \<and> removePrecedingSpaces opts then ret ()
                 else throw (NotImplementedError [])) 1 exSession = (Inr 1, s1))"
proof -
  from removeInitializer_single_removal[OF exSession_sessionOk exInit_facts(1,2,3,4,5,1,6,7)]
  obtain s1 ye yi where h: "hasInitializer 1 exSession = (Inr True, exSession)"
    and a: "slot s1 ye = Some (TsNode 9 FirstAssignment [])" "slot s1 yi = Some exInit"
    and b: "\<forall>rc. removeInitializer rc 1 exSession =
           (case rc \<lparr>children = [ye, yi], removePrecedingSpaces = True\<rparr> s1 of
              (Inl e, s2) \<Rightarrow> (Inl e, s2)
            | (Inr u, s2) \<Rightarrow> (Inr 1, s2))"
    by blast
  have "removeInitializer
        (\<lambda>opts. if children opts = [ye, yi] \<and> removePrecedingSpaces opts then ret ()
                 else throw (NotImplementedError [])) 1 exSession = (Inr 1, s1)"
    using b[rule_format, of "\<lambda>opts. if children opts = [ye, yi] \<and> removePrecedingSpaces opts
                 then ret () else throw (NotImplementedError [])"]
    by (simp add: ret_def)
  with h a show ?thesis by blast
qed

lemma hasInitializer_False:
  assumes "hasInitializer h s = (Inr False, s')"
  shows "s' = s \<and> (\<exists>n. slot s h = Some n \<and> tsinitializer s (ident n) = None)"
  using assms by (auto simp: hasInitializer_def act split: option.splits)

text \<open>
  C6: when \<^verbatim>\<open>hasInitializer()\<close> is false, \<^verbatim>\<open>removeInitializer()\<close> returns the handle
  itself and leaves the session as it is, whatever \<^verbatim>\<open>removeChildren\<close> would do: no edit
  and no error. So a second call, after a first call that left the node without an
  initializer, is a no-op.
\<close>

theorem removeInitializer_idempotent:
  "(hasInitializer h s = (Inr False, s') \<longrightarrow> removeInitializer rc h s = (Inr h, s)) \<and>
   (removeInitializer rc h s = (Inr x, s1) \<and> hasInitializer h s1 = (Inr False, s1) \<longrightarrow>
      removeInitializer rc h s1 = (Inr h, s1) \<and>
      bnd (removeInitializer rc h) (\<lambda>u. removeInitializer rc h) s = removeInitializer rc h s)"
proof (intro conjI impI)
  assume "hasInitializer h s = (Inr False, s')"
  from hasInitializer_False[OF this] obtain n where "slot s h = Some n"
    "tsinitializer s (ident n) = None" by blast
  then show "removeInitializer rc h s = (Inr h, s)"
    by (simp add: removeInitializer_def getInitializer_def act)
next
  assume a: "removeInitializer rc h s = (Inr x, s1) \<and> hasInitializer h s1 = (Inr False, s1)"
  from hasInitializer_False[OF conjunct2[OF a]] obtain n where "slot s1 h = Some n"
    "tsinitializer s1 (ident n) = None" by blast
  then show b: "removeInitializer rc h s1 = (Inr h, s1)"
    by (simp add: removeInitializer_def getInitializer_def act)
  have "x = h" using conjunct1[OF a]
    by (auto simp: removeInitializer_def notImplementedForSyntaxKind_def bnd_def ret_def throw_def
        split: prod.splits sum.splits option.splits if_splits)
  with a b show "bnd (removeInitializer rc h) (\<lambda>u. removeInitializer rc h) s = removeInitializer rc h s"
    by (simp add: bnd_def)
qed


theorem removeInitializer_idempotent_witness:
  "removeInitializer (\<lambda>opts. throw (NotImplementedError [])) 2 exSession = (Inr 2, exSession) \<and>
   (\<exists>s1. removeInitializer
       (\<lambda>opts. modify (\<lambda>s. s\<lparr>tsinitializer := (tsinitializer s)(7 := None)\<rparr>)) 1 exSession
       = (Inr 1, s1) \<and>
     removeInitializer
       (\<lambda>opts. modify (\<lambda>s. s\<lparr>tsinitializer := (tsinitializer s)(7 := None)\<rparr>)) 1 s1
       = (Inr 1, s1))"
proof
  have "hasInitializer 2 exSession = (Inr False, exSession)"
    by (simp add: hasInitializer_def act exSession_def exClass_def)
  with removeInitializer_idempotent[of 2 exSession exSession "\<lambda>opts. throw (NotImplementedError [])"]
  show "removeInitializer (\<lambda>opts. throw (NotImplementedError [])) 2 exSession = (Inr 2, exSession)"
    by simp
next
  define rc :: "remove_options \<Rightarrow> unit action" where
    "rc = (\<lambda>opts. modify (\<lambda>s. s\<lparr>tsinitializer := (tsinitializer s)(7 := None)\<rparr>))"
  from removeInitializer_session[OF exSession_sessionOk exInit_facts(1,2,3,4,5,1,6,7)]
  obtain s0 ye yi where hk: "handlesKept exSession s0"
    and b: "\<forall>rc. removeInitializer rc 1 exSession =
        bnd (rc \<lparr>children = [ye, yi], removePrecedingSpaces = True\<rparr>) (\<lambda>u. ret 1) s0"
    by blast
  define s1 where "s1 = s0\<lparr>tsinitializer := (tsinitializer s0)(7 := None)\<rparr>"
  have first: "removeInitializer rc 1 exSession = (Inr 1, s1)"
    using b[rule_format, of rc] by (simp add: rc_def bnd_def modify_def ret_def s1_def)
  have "slot s0 1 = slot exSession 1" using hk by (simp add: handlesKept_def exSession_def)
  then have "slot s1 1 = Some exProp" by (simp add: s1_def exSession_def)
  then have "hasInitializer 1 s1 = (Inr False, s1)"
    by (simp add: hasInitializer_def act s1_def exProp_def)
  with first removeInitializer_idempotent[of 1 exSession _ rc 1 s1]
  have "removeInitializer rc 1 s1 = (Inr 1, s1)" by simp
  with first show "\<exists>s1. removeInitializer
       (\<lambda>opts. modify (\<lambda>s. s\<lparr>tsinitializer := (tsinitializer s)(7 := None)\<rparr>)) 1 exSession
       = (Inr 1, s1) \<and>
     removeInitializer
       (\<lambda>opts. modify (\<lambda>s. s\<lparr>tsinitializer := (tsinitializer s)(7 := None)\<rparr>)) 1 s1
       = (Inr 1, s1)"
    unfolding rc_def by blast
qed

subsection \<open>The last child and the child index\<close>

lemma getLastChildIfKind_session:
  assumes ok: "sessionOk r sf s" and n: "n \<in> set (subtrees r)"
    and e: "nodeCache s (ident n) = Some h"
  shows "\<exists>s'. sessionOk r sf s' \<and> handlesKept s s' \<and> sameNodes s s' \<and>
     (if tschildren n \<noteq> [] \<and> kind (last (tschildren n)) = k
      then \<exists>y. nodeCache s' (ident (last (tschildren n))) = Some y \<and>
             slot s' y = Some (last (tschildren n)) \<and>
             getLastChildIfKind k h s = (Inr (Some y), s')
      else getLastChildIfKind k h s = (Inr None, s'))"
proof -
  from getChildren_session[OF ok n e] obtain hs s1 where
    gc: "getChildren h s = (Inr hs, s1)" and ok1: "sessionOk r sf s1"
    and hk1: "handlesKept s s1" and sn1: "sameNodes s s1"
    and es: "map (\<lambda>c. nodeCache s1 (ident c)) (tschildren n) = map Some hs" by blast
  have len: "length hs = length (tschildren n)" using es by (metis length_map)
  show ?thesis
  proof (cases "tschildren n = []")
    case True
    with len have "hs = []" by simp
    then have "getLastChildIfKind k h s = (Inr None, s1)"
      using gc by (simp add: getLastChildIfKind_def getLastChild_def bnd_def ret_def)
    with True ok1 hk1 sn1 show ?thesis by auto
  next
    case False
    with len have hne: "hs \<noteq> []" by auto
    have "last (map (\<lambda>c. nodeCache s1 (ident c)) (tschildren n)) = last (map Some hs)"
      using es by simp
    then have el: "nodeCache s1 (ident (last (tschildren n))) = Some (last hs)"
      using False hne by (simp add: last_map)
    have lin: "last (tschildren n) \<in> set (subtrees r)"
      using children_in_tree[OF n] False by simp
    note ll = sessionOkD(2)[OF ok1 lin el]
    have rv: "rev hs = last hs # rev (butlast hs)"
      using hne by (induction hs rule: rev_induct) simp_all
    have "firstOf None (rev hs) s1 = (Inr (Some (last hs)), s1)"
      unfolding rv by (simp add: bnd_def holds_def ret_def)
    then have glc: "getLastChild None h s = (Inr (Some (last hs)), s1)"
      using gc by (simp add: getLastChild_def bnd_def)
    have "getLastChildIfKind k h s =
        (Inr (if kind (last (tschildren n)) = k then Some (last hs) else None), s1)"
      using glc by (simp add: getLastChildIfKind_def bnd_def getKind_live[OF ll] ret_def)
    with False ok1 hk1 sn1 el ll show ?thesis by auto
  qed
qed

lemma indexLoop_session:
  assumes ok: "sessionOk r sf s" and t: "t \<in> set (subtrees r)"
    and e: "nodeCache s (ident t) = Some yt"
  shows "set cs \<subseteq> set (subtrees r) \<Longrightarrow> map (\<lambda>c. nodeCache s (ident c)) cs = map Some hs \<Longrightarrow>
     \<exists>c \<in> set cs. ident c = ident t \<Longrightarrow>
     indexLoop yt i hs s = (Inr (i + length (takeWhile (\<lambda>c. ident c \<noteq> ident t) cs)), s)"
proof (induction cs arbitrary: hs i)
  case Nil
  then show ?case by simp
next
  case (Cons c cs)
  from Cons.prems(2) obtain y ys where hs: "hs = y # ys" and ey: "nodeCache s (ident c) = Some y"
    and eys: "map (\<lambda>c. nodeCache s (ident c)) cs = map Some ys"
    by (cases hs) auto
  from Cons.prems(1) have c: "c \<in> set (subtrees r)" and cs: "set cs \<subseteq> set (subtrees r)" by auto
  have same: "y = yt \<longleftrightarrow> ident c = ident t" using same_handle[OF ok c t ey e] .
  show ?case
  proof (cases "ident c = ident t")
    case True
    with same hs show ?thesis by (simp add: ret_def)
  next
    case False
    with Cons.prems(3) have "\<exists>c \<in> set cs. ident c = ident t" by auto
    from Cons.IH[OF cs eys this, of "Suc i"] False same hs show ?thesis by simp
  qed
qed

lemma distinct_child_idents:
  "distinct (concat (map idents cs)) \<Longrightarrow> distinct (map ident cs)"
proof (induction cs)
  case Nil then show ?case by simp
next
  case (Cons c cs)
  have "ident c' \<in> set (concat (map idents cs))" if "c' \<in> set cs" for c'
    using that ident_in_idents by auto
  moreover have "ident c \<in> set (idents c)" by (rule ident_in_idents)
  ultimately have "ident c \<notin> ident ` set cs" using Cons.prems by auto
  with Cons show ?case by simp
qed

lemma takeWhile_last:
  "distinct (map f xs) \<Longrightarrow> xs \<noteq> [] \<Longrightarrow> takeWhile (\<lambda>c. f c \<noteq> f (last xs)) xs = butlast xs"
proof (induction xs)
  case Nil then show ?case by simp
next
  case (Cons x xs)
  show ?case
  proof (cases "xs = []")
    case True then show ?thesis by simp
  next
    case False
    then have "last xs \<in> set xs" by simp
    with Cons.prems(1) have "f x \<noteq> f (last xs)" by auto
    with Cons False show ?thesis by simp
  qed
qed

lemma getChildIndex_last:
  assumes ok: "sessionOk r sf s" and n: "n \<in> set (subtrees r)"
    and ne: "tschildren n \<noteq> []"
    and e: "nodeCache s (ident (last (tschildren n))) = Some yt"
    and p: "tsparent s (ident (last (tschildren n))) = Some n"
    and pl: "parentList s (last (tschildren n)) n = None"
  shows "\<exists>s'. sessionOk r sf s' \<and> handlesKept s s' \<and> sameNodes s s' \<and>
     getChildIndex yt s = (Inr (length (tschildren n) - 1), s')"
proof -
  define t where "t = last (tschildren n)"
  have tin: "t \<in> set (subtrees r)" using children_in_tree[OF n] ne by (simp add: t_def)
  from siblingParent_session[OF ok tin e[folded t_def] p[folded t_def] n] pl[folded t_def]
  obtain ph s1 where sp: "siblingParent yt s = (Inr ph, s1)" and ok1: "sessionOk r sf s1"
    and hk1: "handlesKept s s1" and sn1: "sameNodes s s1"
    and eg: "nodeCache s1 (ident n) = Some ph" by auto
  from getChildren_session[OF ok1 n eg] obtain hs s2 where
    gc: "getChildren ph s1 = (Inr hs, s2)" and ok2: "sessionOk r sf s2"
    and hk2: "handlesKept s1 s2" and sn2: "sameNodes s1 s2"
    and es: "map (\<lambda>c. nodeCache s2 (ident c)) (tschildren n) = map Some hs" by blast
  have et2: "nodeCache s2 (ident t) = Some yt"
    using e hk1 hk2 by (simp add: handlesKept_def t_def)
  have sub: "set (tschildren n) \<subseteq> set (subtrees r)" using children_in_tree[OF n] by blast
  have ex: "\<exists>c \<in> set (tschildren n). ident c = ident t" using ne by (auto simp: t_def)
  have dn: "distinct (map ident (tschildren n))"
    using distinct_child_idents[OF children_distinct[OF distinct_subtree[OF
          cacheOk_distinct[OF sessionOkD(6)[OF ok tin e[folded t_def]]] n]]] .
  have "length (takeWhile (\<lambda>c. ident c \<noteq> ident t) (tschildren n)) = length (tschildren n) - 1"
    unfolding t_def using takeWhile_last[OF dn ne] by simp
  with indexLoop_session[OF ok2 tin et2 sub es ex, of 0]
  have "indexLoop yt 0 hs s2 = (Inr (length (tschildren n) - 1), s2)" by simp
  then have "getChildIndex yt s = (Inr (length (tschildren n) - 1), s2)"
    using sp gc by (simp add: getChildIndex_def bnd_def)
  with ok2 handlesKept_trans[OF hk1 hk2] sameNodes_trans[OF sn1 sn2] show ?thesis by blast
qed

subsection \<open>Setting the initializer\<close>

lemma parentList_sameNodes: "sameNodes s s' \<Longrightarrow> parentList s' n pn = parentList s n pn"
proof -
  assume sn: "sameNodes s s'"
  have st: "stopsScan s' n = stopsScan s n" "coversList s' n = coversList s n"
    using sn by (auto simp: stopsScan_def coversList_def sameNodes_def fun_eq_iff)
  show ?thesis unfolding parentList_def st ..
qed

lemma getChildCount_session:
  assumes "sessionOk r sf s" and "n \<in> set (subtrees r)" and "nodeCache s (ident n) = Some h"
  shows "getChildCount h s = (Inr (length (tschildren n)), s)"
proof -
  note d = sessionOkD[OF assms]
  from d(4) obtain fn where "slot s sf = Some fn" by blast
  with d(2,3) show ?thesis by (simp add: getChildCount_def act)
qed

lemma setInitializer_blank:
  "list_all isWhitespace txt \<Longrightarrow>
   setInitializer rc ip txt h s = (Inl (InvalidOperationError ''text''), s)"
  by (simp add: setInitializer_def throwIfNotStringOrWhitespace_def bnd_def throw_def)

lemma setInitializer_split:
  "setInitializer rc ip txt h =
     bnd (throwIfNotStringOrWhitespace txt ''text'') (\<lambda>u.
     bnd (hasInitializer h) (\<lambda>has.
     bnd (if has then removeInitializer rc h else ret h) (\<lambda>u. insertInitializer ip txt h)))"
  by (simp add: setInitializer_def insertInitializer_def)

lemma setInitializer_none:
  assumes "\<not> list_all isWhitespace txt" and "hasInitializer h s = (Inr False, s)"
  shows "setInitializer rc ip txt h s = insertInitializer ip txt h s"
  using assms
  by (simp add: setInitializer_split throwIfNotStringOrWhitespace_def bnd_def[of "ret ()"]
        bnd_def[of "hasInitializer h"] bnd_def[of "ret h"] ret_def)

lemma setInitializer_removes:
  assumes nb: "\<not> list_all isWhitespace txt"
    and ok: "sessionOk r sf s" and n: "n \<in> set (subtrees r)"
    and e: "nodeCache s (ident n) = Some h"
    and i: "tsinitializer s (ident n) = Some ini" and iin: "ini \<in> set (subtrees r)"
    and p: "tsparent s (ident ini) = Some pn" and pn: "pn \<in> set (subtrees r)"
    and prev: "rev (takeWhile (\<lambda>c. ident c \<noteq> ident ini) (siblingGroup s ini pn)) = eq # rest"
    and k: "kind eq = FirstAssignment"
  shows "\<exists>s1 ye yi. handlesKept s s1 \<and> sameNodes s s1 \<and>
      slot s1 ye = Some eq \<and> slot s1 yi = Some ini \<and>
      (\<forall>rc ip. setInitializer rc ip txt h s =
         (case rc \<lparr>children = [ye, yi], removePrecedingSpaces = True\<rparr> s1 of
            (Inl e, s2) \<Rightarrow> (Inl e, s2)
          | (Inr u, s2) \<Rightarrow> insertInitializer ip txt h s2))"
proof -
  from removeInitializer_session[OF ok n e i iin p pn prev k] obtain s1 ye yi where
    a: "handlesKept s s1" "sameNodes s s1" "slot s1 ye = Some eq" "slot s1 yi = Some ini"
    and b: "\<forall>rc. removeInitializer rc h s =
        bnd (rc \<lparr>children = [ye, yi], removePrecedingSpaces = True\<rparr>) (\<lambda>u. ret h) s1"
    by blast
  have hi: "hasInitializer h s = (Inr True, s)"
    using hasInitializer_True[OF sessionOkD(2)[OF ok n e] i] .
  have "setInitializer rc ip txt h s =
         (case rc \<lparr>children = [ye, yi], removePrecedingSpaces = True\<rparr> s1 of
            (Inl e, s2) \<Rightarrow> (Inl e, s2)
          | (Inr u, s2) \<Rightarrow> insertInitializer ip txt h s2)" for rc ip
    using nb hi b[rule_format, of rc]
    by (simp add: setInitializer_split throwIfNotStringOrWhitespace_def bnd_def[of "ret ()"]
          bnd_def[of "hasInitializer h"] bnd_def[of "removeInitializer rc h"]
          bnd_def[of "rc \<lparr>children = [ye, yi], removePrecedingSpaces = True\<rparr>"] ret_def
          split: prod.splits sum.splits)
  with a show ?thesis by blast
qed

lemma insertInitializer_session:
  assumes ok: "sessionOk r sf s" and n: "n \<in> set (subtrees r)"
    and e: "nodeCache s (ident n) = Some h"
  shows "(tschildren n = [] \<or> kind (last (tschildren n)) \<noteq> SemicolonToken \<longrightarrow>
       (\<exists>s1. handlesKept s s1 \<and> sameNodes s s1 \<and>
          insertInitializer ip txt h s =
            bnd (ip \<lparr>insertPos = tsend s (ident n), childIndex = length (tschildren n),
                     insertItemsCount = 2, parent = h, newText = '' = '' @ txt\<rparr>)
              (\<lambda>u. ret h) s1))
     \<and> (tschildren n \<noteq> [] \<and> kind (last (tschildren n)) = SemicolonToken \<and>
        tsparent s (ident (last (tschildren n))) = Some n \<and>
        parentList s (last (tschildren n)) n = None \<longrightarrow>
       (\<exists>s1. handlesKept s s1 \<and> sameNodes s s1 \<and>
          insertInitializer ip txt h s =
            bnd (ip \<lparr>insertPos = tspos s (ident (last (tschildren n))),
                     childIndex = length (tschildren n) - 1,
                     insertItemsCount = 2, parent = h, newText = '' = '' @ txt\<rparr>)
              (\<lambda>u. ret h) s1))"
proof -
  note d = sessionOkD[OF ok n e]
  from getLastChildIfKind_session[OF ok n e, of SemicolonToken] obtain s1 where
    ok1: "sessionOk r sf s1" and hk1: "handlesKept s s1" and sn1: "sameNodes s s1" and
    r: "(if tschildren n \<noteq> [] \<and> kind (last (tschildren n)) = SemicolonToken
      then \<exists>y. nodeCache s1 (ident (last (tschildren n))) = Some y \<and>
             slot s1 y = Some (last (tschildren n)) \<and>
             getLastChildIfKind SemicolonToken h s = (Inr (Some y), s1)
      else getLastChildIfKind SemicolonToken h s = (Inr None, s1))"
    by blast
  have e1: "nodeCache s1 (ident n) = Some h" using e hk1 by (simp add: handlesKept_def)
  note d1 = sessionOkD[OF ok1 n e1]
  show ?thesis
  proof (intro conjI impI)
    assume "tschildren n = [] \<or> kind (last (tschildren n)) \<noteq> SemicolonToken"
    with r have g: "getLastChildIfKind SemicolonToken h s = (Inr None, s1)" by auto
    have ge: "getEnd h s1 = (Inr (tsend s (ident n)), s1)"
      using getEnd_live[OF d1(2)] sn1 by (simp add: sameNodes_def)
    have "insertInitializer ip txt h s =
            bnd (ip \<lparr>insertPos = tsend s (ident n), childIndex = length (tschildren n),
                     insertItemsCount = 2, parent = h, newText = '' = '' @ txt\<rparr>)
              (\<lambda>u. ret h) s1"
      unfolding insertInitializer_def
      by (simp add: bnd_def[of "getLastChildIfKind SemicolonToken h"] g
            bnd_def[of "getEnd h"] ge bnd_def[of "getChildCount h"]
            getChildCount_session[OF ok1 n e1])
    with hk1 sn1 show "\<exists>s1. handlesKept s s1 \<and> sameNodes s s1 \<and>
          insertInitializer ip txt h s =
            bnd (ip \<lparr>insertPos = tsend s (ident n), childIndex = length (tschildren n),
                     insertItemsCount = 2, parent = h, newText = '' = '' @ txt\<rparr>)
              (\<lambda>u. ret h) s1" by blast
  next
    assume a: "tschildren n \<noteq> [] \<and> kind (last (tschildren n)) = SemicolonToken \<and>
        tsparent s (ident (last (tschildren n))) = Some n \<and>
        parentList s (last (tschildren n)) n = None"
    with r obtain y where ey: "nodeCache s1 (ident (last (tschildren n))) = Some y"
      and ly: "slot s1 y = Some (last (tschildren n))"
      and g: "getLastChildIfKind SemicolonToken h s = (Inr (Some y), s1)" by auto
    have gp: "getPos y s1 = (Inr (tspos s (ident (last (tschildren n)))), s1)"
      using getPos_live[OF ly] sn1 by (simp add: sameNodes_def)
    have p1: "tsparent s1 (ident (last (tschildren n))) = Some n"
      using a sn1 by (simp add: sameNodes_def)
    have pl1: "parentList s1 (last (tschildren n)) n = None"
      using a parentList_sameNodes[OF sn1] by simp
    from getChildIndex_last[OF ok1 n _ ey p1 pl1] a obtain s2 where
      hk2: "handlesKept s1 s2" and sn2: "sameNodes s1 s2"
      and gi: "getChildIndex y s1 = (Inr (length (tschildren n) - 1), s2)" by auto
    have "insertInitializer ip txt h s =
            bnd (ip \<lparr>insertPos = tspos s (ident (last (tschildren n))),
                     childIndex = length (tschildren n) - 1,
                     insertItemsCount = 2, parent = h, newText = '' = '' @ txt\<rparr>)
              (\<lambda>u. ret h) s2"
      unfolding insertInitializer_def
      by (simp add: bnd_def[of "getLastChildIfKind SemicolonToken h"] g
            bnd_def[of "getPos y"] gp bnd_def[of "getChildIndex y"] gi)
    with handlesKept_trans[OF hk1 hk2] sameNodes_trans[OF sn1 sn2]
    show "\<exists>s1. handlesKept s s1 \<and> sameNodes s s1 \<and>
          insertInitializer ip txt h s =
            bnd (ip \<lparr>insertPos = tspos s (ident (last (tschildren n))),
                     childIndex = length (tschildren n) - 1,
                     insertItemsCount = 2, parent = h, newText = '' = '' @ txt\<rparr>)
              (\<lambda>u. ret h) s1" by blast
  qed
qed

lemma bnd_ret_case:
  "bnd m (\<lambda>u. ret h) s = (case m s of (Inl e, s2) \<Rightarrow> (Inl e, s2) | (Inr u, s2) \<Rightarrow> (Inr h, s2))"
  by (simp add: bnd_def ret_def split: prod.splits sum.splits)

text \<open>
  C4: \<^verbatim>\<open>setInitializer(text)\<close> with a blank text throws the error of the check and leaves
  the session as it is, whatever the two edit functions would do. With any other text, in
  a well-formed session:
  \<^item> when the node has an initializer whose closest previous sibling is the \<^verbatim>\<open>=\<close> token,
    the method first wraps the two nodes and calls \<^verbatim>\<open>removeChildren\<close> once, with the
    handles of the \<^verbatim>\<open>=\<close> token and of the initializer and with \<^verbatim>\<open>removePrecedingSpaces\<close>
    set; an error of that call is the outcome, and otherwise the insertion
    (\<open>insertInitializer\<close>) runs in the session that the removal leaves;
  \<^item> when the node has no initializer, \<^verbatim>\<open>removeChildren\<close> is not called and the insertion
    runs at once;
  \<^item> the insertion calls \<^verbatim>\<open>insertIntoParent\<close> once with the text \<^verbatim>\<open> = text\<close>, two inserted
    items and the handle as parent: at the end of the node and with the child count as
    index when the last child is not a semicolon token; at the \<^verbatim>\<open>pos\<close> of the semicolon
    token and with its child index when the last child is one (the token's parent being
    the node, and no syntax list before it covering it). On success the handle is
    returned.
\<close>

theorem setInitializer_edit:
  "(list_all isWhitespace txt \<longrightarrow>
      setInitializer rc ip txt h s = (Inl (InvalidOperationError ''text''), s))
   \<and> (\<not> list_all isWhitespace txt \<and> sessionOk r sf s \<and> n \<in> set (subtrees r) \<and>
       nodeCache s (ident n) = Some h \<and>
       tsinitializer s (ident n) = Some ini \<and> ini \<in> set (subtrees r) \<and>
       tsparent s (ident ini) = Some pn \<and> pn \<in> set (subtrees r) \<and>
       rev (takeWhile (\<lambda>c. ident c \<noteq> ident ini) (siblingGroup s ini pn)) = eq # rest \<and>
       kind eq = FirstAssignment \<longrightarrow>
        (\<exists>s1 ye yi. handlesKept s s1 \<and> sameNodes s s1 \<and>
           slot s1 ye = Some eq \<and> slot s1 yi = Some ini \<and>
           (\<forall>rc' ip'. setInitializer rc' ip' txt h s =
              (case rc' \<lparr>children = [ye, yi], removePrecedingSpaces = True\<rparr> s1 of
                 (Inl e, s2) \<Rightarrow> (Inl e, s2)
               | (Inr u, s2) \<Rightarrow> insertInitializer ip' txt h s2))))
   \<and> (\<not> list_all isWhitespace txt \<and> hasInitializer h s = (Inr False, s) \<longrightarrow>
        setInitializer rc ip txt h s = insertInitializer ip txt h s)
   \<and> (sessionOk r sf s \<and> n \<in> set (subtrees r) \<and> nodeCache s (ident n) = Some h \<longrightarrow>
        (tschildren n = [] \<or> kind (last (tschildren n)) \<noteq> SemicolonToken \<longrightarrow>
          (\<exists>s1. handlesKept s s1 \<and> sameNodes s s1 \<and>
             insertInitializer ip txt h s =
               (case ip \<lparr>insertPos = tsend s (ident n), childIndex = length (tschildren n),
                         insertItemsCount = 2, parent = h, newText = '' = '' @ txt\<rparr> s1 of
                  (Inl e, s2) \<Rightarrow> (Inl e, s2)
                | (Inr u, s2) \<Rightarrow> (Inr h, s2))))
        \<and> (tschildren n \<noteq> [] \<and> kind (last (tschildren n)) = SemicolonToken \<and>
           tsparent s (ident (last (tschildren n))) = Some n \<and>
           parentList s (last (tschildren n)) n = None \<longrightarrow>
          (\<exists>s1. handlesKept s s1 \<and> sameNodes s s1 \<and>
             insertInitializer ip txt h s =
               (case ip \<lparr>insertPos = tspos s (ident (last (tschildren n))),
                         childIndex = length (tschildren n) - 1,
                         insertItemsCount = 2, parent = h, newText = '' = '' @ txt\<rparr> s1 of
                  (Inl e, s2) \<Rightarrow> (Inl e, s2)
                | (Inr u, s2) \<Rightarrow> (Inr h, s2)))))"
proof (intro conjI)
  show "list_all isWhitespace txt \<longrightarrow>
      setInitializer rc ip txt h s = (Inl (InvalidOperationError ''text''), s)"
    using setInitializer_blank by blast
  show "\<not> list_all isWhitespace txt \<and> sessionOk r sf s \<and> n \<in> set (subtrees r) \<and>
       nodeCache s (ident n) = Some h \<and>
       tsinitializer s (ident n) = Some ini \<and> ini \<in> set (subtrees r) \<and>
       tsparent s (ident ini) = Some pn \<and> pn \<in> set (subtrees r) \<and>
       rev (takeWhile (\<lambda>c. ident c \<noteq> ident ini) (siblingGroup s ini pn)) = eq # rest \<and>
       kind eq = FirstAssignment \<longrightarrow>
        (\<exists>s1 ye yi. handlesKept s s1 \<and> sameNodes s s1 \<and>
           slot s1 ye = Some eq \<and> slot s1 yi = Some ini \<and>
           (\<forall>rc' ip'. setInitializer rc' ip' txt h s =
              (case rc' \<lparr>children = [ye, yi], removePrecedingSpaces = True\<rparr> s1 of
                 (Inl e, s2) \<Rightarrow> (Inl e, s2)
               | (Inr u, s2) \<Rightarrow> insertInitializer ip' txt h s2)))"
    using setInitializer_removes by blast
  show "\<not> list_all isWhitespace txt \<and> hasInitializer h s = (Inr False, s) \<longrightarrow>
        setInitializer rc ip txt h s = insertInitializer ip txt h s"
    using setInitializer_none by blast
  show "sessionOk r sf s \<and> n \<in> set (subtrees r) \<and> nodeCache s (ident n) = Some h \<longrightarrow>
        (tschildren n = [] \<or> kind (last (tschildren n)) \<noteq> SemicolonToken \<longrightarrow>
          (\<exists>s1. handlesKept s s1 \<and> sameNodes s s1 \<and>
             insertInitializer ip txt h s =
               (case ip \<lparr>insertPos = tsend s (ident n), childIndex = length (tschildren n),
                         insertItemsCount = 2, parent = h, newText = '' = '' @ txt\<rparr> s1 of
                  (Inl e, s2) \<Rightarrow> (Inl e, s2)
                | (Inr u, s2) \<Rightarrow> (Inr h, s2))))
        \<and> (tschildren n \<noteq> [] \<and> kind (last (tschildren n)) = SemicolonToken \<and>
           tsparent s (ident (last (tschildren n))) = Some n \<and>
           parentList s (last (tschildren n)) n = None \<longrightarrow>
          (\<exists>s1. handlesKept s s1 \<and> sameNodes s s1 \<and>
             insertInitializer ip txt h s =
               (case ip \<lparr>insertPos = tspos s (ident (last (tschildren n))),
                         childIndex = length (tschildren n) - 1,
                         insertItemsCount = 2, parent = h, newText = '' = '' @ txt\<rparr> s1 of
                  (Inl e, s2) \<Rightarrow> (Inl e, s2)
                | (Inr u, s2) \<Rightarrow> (Inr h, s2))))"
  proof
    assume a: "sessionOk r sf s \<and> n \<in> set (subtrees r) \<and> nodeCache s (ident n) = Some h"
    then have a2: "sessionOk r sf s"
      and a3: "n \<in> set (subtrees r)" and a4: "nodeCache s (ident n) = Some h" by simp_all
    from insertInitializer_session[OF a2 a3 a4, of ip "txt"]
    show "(tschildren n = [] \<or> kind (last (tschildren n)) \<noteq> SemicolonToken \<longrightarrow>
          (\<exists>s1. handlesKept s s1 \<and> sameNodes s s1 \<and>
             insertInitializer ip txt h s =
               (case ip \<lparr>insertPos = tsend s (ident n), childIndex = length (tschildren n),
                         insertItemsCount = 2, parent = h, newText = '' = '' @ txt\<rparr> s1 of
                  (Inl e, s2) \<Rightarrow> (Inl e, s2)
                | (Inr u, s2) \<Rightarrow> (Inr h, s2))))
        \<and> (tschildren n \<noteq> [] \<and> kind (last (tschildren n)) = SemicolonToken \<and>
           tsparent s (ident (last (tschildren n))) = Some n \<and>
           parentList s (last (tschildren n)) n = None \<longrightarrow>
          (\<exists>s1. handlesKept s s1 \<and> sameNodes s s1 \<and>
             insertInitializer ip txt h s =
               (case ip \<lparr>insertPos = tspos s (ident (last (tschildren n))),
                         childIndex = length (tschildren n) - 1,
                         insertItemsCount = 2, parent = h, newText = '' = '' @ txt\<rparr> s1 of
                  (Inl e, s2) \<Rightarrow> (Inl e, s2)
                | (Inr u, s2) \<Rightarrow> (Inr h, s2))))"
      unfolding bnd_ret_case .
  qed
qed

lemmas exTree2 = exFile2_def exStatements2_def exClass2_def exMembers2_def exProp2_def

lemma exRemoved_sessionOk: "sessionOk exFile2 0 exRemoved"
  by (simp add: sessionOk_def cacheOk_def fileOk_def exTree2 exRemoved_def)

theorem setInitializer_edit_witness:
  "setInitializer (\<lambda>opts. throw (NotImplementedError [])) (\<lambda>opts. throw (NotImplementedError []))
      ''  '' 1 exSession = (Inl (InvalidOperationError ''text''), exSession) \<and>
   (\<exists>s1. setInitializer (\<lambda>opts. throw (NotImplementedError ''removeChildren''))
       (\<lambda>opts. ret ()) ''2'' 1 exSession
       = (Inl (NotImplementedError ''removeChildren''), s1)) \<and>
   (\<exists>s2. setInitializer exRemoveChildren exInsertIntoParent ''2'' 1 exSession = (Inr 1, s2) \<and>
       slot s2 1 = Some exProp2 \<and> tstext s2 = tstext exRemoved) \<and>
   (\<exists>s2. setInitializer (\<lambda>opts. throw (NotImplementedError []))
       (\<lambda>opts. if opts = \<lparr>insertPos = 20, childIndex = 5, insertItemsCount = 2, parent = 2,
                          newText = '' = 5''\<rparr> then ret ()
                else throw (NotImplementedError []))
       ''5'' 2 exSession = (Inr 2, s2))"
proof (intro conjI)
  have "list_all isWhitespace ''  ''" by (simp add: isWhitespace_def)
  with setInitializer_edit[of "''  ''" "\<lambda>opts. throw (NotImplementedError [])"
      "\<lambda>opts. throw (NotImplementedError [])" 1 exSession]
  show "setInitializer (\<lambda>opts. throw (NotImplementedError [])) (\<lambda>opts. throw (NotImplementedError []))
      ''  '' 1 exSession = (Inl (InvalidOperationError ''text''), exSession)"
    by blast
next
  have nb: "\<not> list_all isWhitespace ''2''" by (simp add: isWhitespace_def)
  note t = setInitializer_edit[of "''2''" _ _ 1 exSession exFile 0 exProp exInit exProp
      "TsNode 9 FirstAssignment []" "[TsNode 8 (OtherKind 71) []]"]
  from t nb exSession_sessionOk exInit_facts obtain s1 ye yi where
    b: "\<forall>rc' ip'. setInitializer rc' ip' ''2'' 1 exSession =
              (case rc' \<lparr>children = [ye, yi], removePrecedingSpaces = True\<rparr> s1 of
                 (Inl e, s2) \<Rightarrow> (Inl e, s2)
               | (Inr u, s2) \<Rightarrow> insertInitializer ip' ''2'' 1 s2)"
    by blast
  have "setInitializer (\<lambda>opts. throw (NotImplementedError ''removeChildren''))
       (\<lambda>opts. ret ()) ''2'' 1 exSession = (Inl (NotImplementedError ''removeChildren''), s1)"
    using b[rule_format, of "\<lambda>opts. throw (NotImplementedError ''removeChildren'')" "\<lambda>opts. ret ()"]
    by (simp add: throw_def)
  then show "\<exists>s1. setInitializer (\<lambda>opts. throw (NotImplementedError ''removeChildren''))
       (\<lambda>opts. ret ()) ''2'' 1 exSession
       = (Inl (NotImplementedError ''removeChildren''), s1)" by blast
next
  have nb: "\<not> list_all isWhitespace ''2''" by (simp add: isWhitespace_def)
  note t0 = setInitializer_edit[of "''2''" _ _ 1 exSession exFile 0 exProp exInit exProp
      "TsNode 9 FirstAssignment []" "[TsNode 8 (OtherKind 71) []]"]
  from t0 nb exSession_sessionOk exInit_facts obtain s1 ye yi where
    le: "slot s1 ye = Some (TsNode 9 FirstAssignment [])" and li: "slot s1 yi = Some exInit" and
    b: "\<forall>rc' ip'. setInitializer rc' ip' ''2'' 1 exSession =
              (case rc' \<lparr>children = [ye, yi], removePrecedingSpaces = True\<rparr> s1 of
                 (Inl e, s2) \<Rightarrow> (Inl e, s2)
               | (Inr u, s2) \<Rightarrow> insertInitializer ip' ''2'' 1 s2)"
    by blast
  have first: "setInitializer exRemoveChildren exInsertIntoParent ''2'' 1 exSession =
      insertInitializer exInsertIntoParent ''2'' 1 exRemoved"
    using b[rule_format, of exRemoveChildren exInsertIntoParent] le li
    by (simp add: exRemoveChildren_def)
  have n: "exProp2 \<in> set (subtrees exFile2)" by (simp add: exTree2)
  have c: "nodeCache exRemoved (ident exProp2) = Some 1"
    by (simp add: exRemoved_def exProp2_def)
  have l: "last (tschildren exProp2) = TsNode 31 SemicolonToken []" by (simp add: exProp2_def)
  have ne: "tschildren exProp2 \<noteq> [] \<and> kind (last (tschildren exProp2)) = SemicolonToken"
    by (simp add: exProp2_def)
  have pa: "tsparent exRemoved (ident (last (tschildren exProp2))) = Some exProp2"
    unfolding l by (simp add: exRemoved_def)
  have pl: "parentList exRemoved (last (tschildren exProp2)) exProp2 = None"
    unfolding l by (simp add: parentList_def stopsScan_def coversList_def exRemoved_def exTree2)
  have tp: "tspos exRemoved (ident (last (tschildren exProp2))) = 13"
    "length (tschildren exProp2) - 1 = 1"
    unfolding l by (simp_all add: exRemoved_def exProp2_def)
  note t1 = setInitializer_edit[of "''2''" _ exInsertIntoParent 1 exRemoved exFile2 0 exProp2]
  from t1 exRemoved_sessionOk n c ne pa pl obtain s2 where
    hk: "handlesKept exRemoved s2" and sn: "sameNodes exRemoved s2" and
    "insertInitializer exInsertIntoParent ''2'' 1 exRemoved =
       (case exInsertIntoParent \<lparr>insertPos = tspos exRemoved (ident (last (tschildren exProp2))),
                 childIndex = length (tschildren exProp2) - 1,
                 insertItemsCount = 2, parent = 1, newText = '' = '' @ ''2''\<rparr> s2 of
          (Inl e, s2) \<Rightarrow> (Inl e, s2)
        | (Inr u, s2) \<Rightarrow> (Inr 1, s2))"
    by blast
  then have "insertInitializer exInsertIntoParent ''2'' 1 exRemoved = (Inr 1, s2)"
    unfolding tp by (simp add: exInsertIntoParent_def)
  moreover have "slot s2 1 = Some exProp2" using hk by (simp add: handlesKept_def exRemoved_def)
  moreover have "tstext s2 = tstext exRemoved" using sn by (simp add: sameNodes_def)
  ultimately show "\<exists>s2. setInitializer exRemoveChildren exInsertIntoParent ''2'' 1 exSession = (Inr 1, s2) \<and>
       slot s2 1 = Some exProp2 \<and> tstext s2 = tstext exRemoved"
    using first by simp
next
  define ip :: "insert_options \<Rightarrow> unit action" where
    "ip = (\<lambda>opts. if opts = \<lparr>insertPos = 20, childIndex = 5, insertItemsCount = 2, parent = 2,
                          newText = '' = 5''\<rparr> then ret ()
                else throw (NotImplementedError []))"
  have nb: "\<not> list_all isWhitespace ''5''" by (simp add: isWhitespace_def)
  have n: "exClass \<in> set (subtrees exFile)" by (simp add: exTree)
  have c: "nodeCache exSession (ident exClass) = Some 2"
    and k: "kind (last (tschildren exClass)) \<noteq> SemicolonToken"
    and v: "tsend exSession (ident exClass) = 20" "length (tschildren exClass) = 5"
    by (simp_all add: exSession_def exClass_def)
  have hi: "hasInitializer 2 exSession = (Inr False, exSession)"
    by (simp add: hasInitializer_def act exSession_def exClass_def)
  note t = setInitializer_edit[of "''5''" "\<lambda>opts. throw (NotImplementedError [])" ip 2
      exSession exFile 0 exClass]
  from t nb hi have eq: "setInitializer (\<lambda>opts. throw (NotImplementedError [])) ip ''5'' 2 exSession
      = insertInitializer ip ''5'' 2 exSession" by blast
  from t exSession_sessionOk n c k obtain s2 where
    "insertInitializer ip ''5'' 2 exSession =
       (case ip \<lparr>insertPos = tsend exSession (ident exClass),
                 childIndex = length (tschildren exClass),
                 insertItemsCount = 2, parent = 2, newText = '' = '' @ ''5''\<rparr> s2 of
          (Inl e, s2) \<Rightarrow> (Inl e, s2)
        | (Inr u, s2) \<Rightarrow> (Inr 2, s2))"
    by blast
  then have "insertInitializer ip ''5'' 2 exSession = (Inr 2, s2)"
    unfolding v by (simp add: ip_def ret_def)
  with eq show "\<exists>s2. setInitializer (\<lambda>opts. throw (NotImplementedError []))
       (\<lambda>opts. if opts = \<lparr>insertPos = 20, childIndex = 5, insertItemsCount = 2, parent = 2,
                          newText = '' = 5''\<rparr> then ret ()
                else throw (NotImplementedError []))
       ''5'' 2 exSession = (Inr 2, s2)"
    unfolding ip_def by auto
qed

end
